theory Spec2Isabelle
  imports Main "HOL-Library.Monad_Syntax" "HOL-Library.Sublist" "HOL-Library.Multiset"
begin

section \<open>The linked list of LinkedList.py over an explicit heap\<close>

text \<open>
  The Python objects of class \<open>_Node\<close> live in a store: a node is named by its address,
  the store is the list of all nodes allocated so far, and a new node gets the next free
  address. A \<open>LinkedList\<close> object is the pair of its two fields and is passed to each
  method and returned updated. Two lists may hold the same address in \<open>_first\<close>: that is
  the sharing \<open>copy\<close> creates.

  Every \<open>while\<close> loop of the source walks \<open>next\<close> links and runs forever on a chain
  that never reaches \<open>None\<close>, so each loop is a partial function into \<open>option\<close>:
  the value \<open>None\<close> of a method means that the call does not return.
  An exception is a value of type \<open>error\<close>, returned together with the heap and the list
  as they are when it is raised.
\<close>

type_synonym addr = nat

record 'a node =
  item :: 'a
  nxt :: "addr option"

type_synonym 'a heap = "'a node list"

datatype error = IndexError | ValueError | StopIteration

record linked_list =
  ll_first :: "addr option"
  ll_length :: int

record linked_list_iterator =
  it_curr :: "addr option"

subsection \<open>append\<close>

partial_function (option) append_loop :: "'a heap \<Rightarrow> addr \<Rightarrow> addr option" where
  "append_loop h cur =
     (case nxt (h ! cur) of
        None \<Rightarrow> Some cur
      | Some n \<Rightarrow> append_loop h n)"

declare append_loop.simps [code]

definition append_ll :: "'a heap \<Rightarrow> linked_list \<Rightarrow> 'a \<Rightarrow> ('a heap \<times> linked_list) option" where
  "append_ll h self x =
     (let new_node = length h;
          h1 = h @ [\<lparr>item = x, nxt = None\<rparr>]
      in case ll_first self of
           None \<Rightarrow>
             Some (h1, self\<lparr>ll_first := Some new_node, ll_length := ll_length self + 1\<rparr>)
         | Some f \<Rightarrow>
             do { cur \<leftarrow> append_loop h1 f;
                  Some (h1[cur := (h1 ! cur)\<lparr>nxt := Some new_node\<rparr>],
                        self\<lparr>ll_length := ll_length self + 1\<rparr>) })"

subsection \<open>Construction\<close>

fun init_loop :: "'a heap \<Rightarrow> linked_list \<Rightarrow> 'a list \<Rightarrow> ('a heap \<times> linked_list) option" where
  "init_loop h self [] = Some (h, self)"
| "init_loop h self (x # xs) =
     do { (h', self') \<leftarrow> append_ll h self x;
          init_loop h' self' xs }"

definition init ::
  "'a heap \<Rightarrow> 'a list option \<Rightarrow> addr option \<Rightarrow> ('a heap \<times> linked_list) option" where
  "init h items first =
     (let self = \<lparr>ll_first = first, ll_length = 0\<rparr>
      in case items of
           None \<Rightarrow> Some (h, self)
         | Some xs \<Rightarrow> if xs \<noteq> [] then init_loop h self xs else Some (h, self))"

subsection \<open>Reading: to_list, len, getitem, eq\<close>

partial_function (option) to_list_loop ::
  "'a heap \<Rightarrow> 'a list \<Rightarrow> addr option \<Rightarrow> 'a list option" where
  "to_list_loop h items_so_far cur =
     (case cur of
        None \<Rightarrow> Some items_so_far
      | Some c \<Rightarrow> to_list_loop h (items_so_far @ [item (h ! c)]) (nxt (h ! c)))"

declare to_list_loop.simps [code]

definition to_list :: "'a heap \<Rightarrow> linked_list \<Rightarrow> 'a list option" where
  "to_list h self = to_list_loop h [] (ll_first self)"

definition len :: "linked_list \<Rightarrow> int" where
  "len self = ll_length self"

partial_function (option) getitem_loop ::
  "'a heap \<Rightarrow> int \<Rightarrow> addr option \<Rightarrow> int \<Rightarrow> addr option option" where
  "getitem_loop h i cur cur_index =
     (case cur of
        None \<Rightarrow> Some None
      | Some c \<Rightarrow>
          if cur_index \<noteq> i then getitem_loop h i (nxt (h ! c)) (cur_index + 1)
          else Some (Some c))"

declare getitem_loop.simps [code]

definition getitem :: "'a heap \<Rightarrow> linked_list \<Rightarrow> int \<Rightarrow> (error + 'a) option" where
  "getitem h self i0 =
     (let i = (if i0 < 0 then ll_length self + i0 else i0)
      in do { cur \<leftarrow> getitem_loop h i (ll_first self) 0;
              Some (case cur of
                      None \<Rightarrow> Inl IndexError
                    | Some c \<Rightarrow> Inr (item (h ! c))) })"

partial_function (option) eq_loop ::
  "'a heap \<Rightarrow> bool \<Rightarrow> addr option \<Rightarrow> addr option \<Rightarrow> bool option" where
  "eq_loop h are_equal cur1 cur2 =
     (case cur1 of
        None \<Rightarrow> Some are_equal
      | Some c1 \<Rightarrow>
          (case cur2 of
             None \<Rightarrow> Some are_equal
           | Some c2 \<Rightarrow>
               if are_equal
               then eq_loop h (if item (h ! c1) \<noteq> item (h ! c2) then False else are_equal)
                      (nxt (h ! c1)) (nxt (h ! c2))
               else Some are_equal))"

declare eq_loop.simps [code]

definition eq :: "'a heap \<Rightarrow> linked_list \<Rightarrow> linked_list \<Rightarrow> bool option" where
  "eq h self other = eq_loop h True (ll_first self) (ll_first other)"

subsection \<open>Writing by position: setitem, insert, pop\<close>

partial_function (option) setitem_loop ::
  "'a heap \<Rightarrow> int \<Rightarrow> 'a \<Rightarrow> addr option \<Rightarrow> int \<Rightarrow> ('a heap \<times> addr option) option" where
  "setitem_loop h i x cur index_so_far =
     (case cur of
        None \<Rightarrow> Some (h, None)
      | Some c \<Rightarrow>
          if index_so_far = i then Some (h[c := (h ! c)\<lparr>item := x\<rparr>], Some c)
          else setitem_loop h i x (nxt (h ! c)) (index_so_far + 1))"

declare setitem_loop.simps [code]

definition setitem ::
  "'a heap \<Rightarrow> linked_list \<Rightarrow> int \<Rightarrow> 'a \<Rightarrow> ((error + unit) \<times> 'a heap \<times> linked_list) option" where
  "setitem h self i0 x =
     (let i = (if i0 < 0 then ll_length self + i0 else i0)
      in do { (h', cur) \<leftarrow> setitem_loop h i x (ll_first self) 0;
              Some (case cur of
                      None \<Rightarrow> (Inl IndexError, h', self)
                    | Some c \<Rightarrow> (Inr (), h', self)) })"

partial_function (option) insert_loop ::
  "'a heap \<Rightarrow> int \<Rightarrow> addr option \<Rightarrow> int \<Rightarrow> addr option option" where
  "insert_loop h i cur cur_index =
     (case cur of
        None \<Rightarrow> Some None
      | Some c \<Rightarrow>
          if cur_index \<noteq> i - 1 then insert_loop h i (nxt (h ! c)) (cur_index + 1)
          else Some (Some c))"

declare insert_loop.simps [code]

definition insert_ll ::
  "'a heap \<Rightarrow> linked_list \<Rightarrow> int \<Rightarrow> 'a \<Rightarrow> ((error + unit) \<times> 'a heap \<times> linked_list) option" where
  "insert_ll h self i0 x =
     (let i = (if i0 < 0 then ll_length self + i0 else i0)
      in if i = 0
         then Some (Inr (),
                    h @ [\<lparr>item = x, nxt = ll_first self\<rparr>],
                    self\<lparr>ll_first := Some (length h), ll_length := ll_length self + 1\<rparr>)
         else do { cur \<leftarrow> insert_loop h i (ll_first self) 0;
                   Some (case cur of
                           None \<Rightarrow> (Inl IndexError, h, self)
                         | Some c \<Rightarrow>
                             (Inr (),
                              (h @ [\<lparr>item = x, nxt = nxt (h ! c)\<rparr>])
                                [c := (h ! c)\<lparr>nxt := Some (length h)\<rparr>],
                              self\<lparr>ll_length := ll_length self + 1\<rparr>)) })"

partial_function (option) pop_loop ::
  "'a heap \<Rightarrow> linked_list \<Rightarrow> int \<Rightarrow> addr option \<Rightarrow> int
     \<Rightarrow> ((error + 'a) \<times> 'a heap \<times> linked_list) option" where
  "pop_loop h self i cur cur_index =
     (case cur of
        None \<Rightarrow> Some (Inl IndexError, h, self)
      | Some c \<Rightarrow>
          if cur_index = i - 1
          then (case nxt (h ! c) of
                  None \<Rightarrow> Some (Inl IndexError, h, self)
                | Some n \<Rightarrow>
                    Some (Inr (item (h ! n)),
                          h[c := (h ! c)\<lparr>nxt := nxt (h ! n)\<rparr>],
                          self\<lparr>ll_length := ll_length self - 1\<rparr>))
          else pop_loop h self i (nxt (h ! c)) (cur_index + 1))"

declare pop_loop.simps [code]

definition pop ::
  "'a heap \<Rightarrow> linked_list \<Rightarrow> int \<Rightarrow> ((error + 'a) \<times> 'a heap \<times> linked_list) option" where
  "pop h self i0 =
     (let i = (if i0 < 0 then ll_length self + i0 else i0)
      in if i = 0
         then (case ll_first self of
                 Some f \<Rightarrow>
                   Some (Inr (item (h ! f)),
                         h,
                         self\<lparr>ll_first := nxt (h ! f), ll_length := ll_length self - 1\<rparr>)
               | None \<Rightarrow> Some (Inl IndexError, h, self))
         else pop_loop h self i (ll_first self) 0)"

subsection \<open>remove\<close>

partial_function (option) remove_loop ::
  "'a heap \<Rightarrow> linked_list \<Rightarrow> 'a \<Rightarrow> addr option
     \<Rightarrow> ((error + unit) \<times> 'a heap \<times> linked_list) option" where
  "remove_loop h self x cur =
     (case cur of
        None \<Rightarrow> Some (Inl ValueError, h, self)
      | Some c \<Rightarrow>
          (case nxt (h ! c) of
             None \<Rightarrow> remove_loop h self x (nxt (h ! c))
           | Some n \<Rightarrow>
               if item (h ! n) = x
               then Some (Inr (),
                          h[c := (h ! c)\<lparr>nxt := nxt (h ! n)\<rparr>],
                          self\<lparr>ll_length := ll_length self - 1\<rparr>)
               else remove_loop h self x (nxt (h ! c))))"

declare remove_loop.simps [code]

definition remove_ll ::
  "'a heap \<Rightarrow> linked_list \<Rightarrow> 'a \<Rightarrow> ((error + unit) \<times> 'a heap \<times> linked_list) option" where
  "remove_ll h self x =
     (case ll_first self of
        None \<Rightarrow> Some (Inl ValueError, h, self)
      | Some c \<Rightarrow>
          if item (h ! c) = x
          then Some (Inr (),
                     h,
                     self\<lparr>ll_first := nxt (h ! c), ll_length := ll_length self - 1\<rparr>)
          else remove_loop h self x (Some c))"

subsection \<open>invert\<close>

partial_function (option) invert_loop ::
  "'a heap \<Rightarrow> addr option \<Rightarrow> addr option \<Rightarrow> ('a heap \<times> addr option) option" where
  "invert_loop h cur previous =
     (case cur of
        None \<Rightarrow> Some (h, previous)
      | Some c \<Rightarrow>
          (let cur_value = nxt (h ! c);
               h' = h[c := (h ! c)\<lparr>nxt := previous\<rparr>]
           in invert_loop h' cur_value (Some c)))"

declare invert_loop.simps [code]

definition invert :: "'a heap \<Rightarrow> linked_list \<Rightarrow> ('a heap \<times> linked_list) option" where
  "invert h self =
     do { (h', previous) \<leftarrow> invert_loop h (ll_first self) None;
          Some (h', self\<lparr>ll_first := previous\<rparr>) }"

subsection \<open>The iterator\<close>

definition iter :: "linked_list \<Rightarrow> linked_list_iterator" where
  "iter self = \<lparr>it_curr = ll_first self\<rparr>"

definition next_it ::
  "'a heap \<Rightarrow> linked_list_iterator \<Rightarrow> error + ('a \<times> linked_list_iterator)" where
  "next_it h it =
     (case it_curr it of
        None \<Rightarrow> Inl StopIteration
      | Some c \<Rightarrow> Inr (item (h ! c), it\<lparr>it_curr := nxt (h ! c)\<rparr>))"

subsection \<open>copy, extend, add\<close>

definition copy :: "'a heap \<Rightarrow> linked_list \<Rightarrow> ('a heap \<times> linked_list) option" where
  "copy h self = init h None (ll_first self)"

text \<open>
  The loop \<open>for item in other: copy.append(item)\<close> of \<open>extend\<close> and of \<open>__add__\<close>:
  \<open>__next__\<close> reads the item and the \<open>next\<close> link of the iterator's node before the body
  appends.
\<close>

partial_function (option) extend_loop ::
  "'a heap \<Rightarrow> linked_list \<Rightarrow> linked_list_iterator \<Rightarrow> ('a heap \<times> linked_list) option" where
  "extend_loop h cpy it =
     (case next_it h it of
        Inl e \<Rightarrow> Some (h, cpy)
      | Inr (x, it') \<Rightarrow>
          do { (h', cpy') \<leftarrow> append_ll h cpy x;
               extend_loop h' cpy' it' })"

declare extend_loop.simps [code]

definition extend_ll ::
  "'a heap \<Rightarrow> linked_list \<Rightarrow> linked_list \<Rightarrow> ('a heap \<times> linked_list) option" where
  "extend_ll h self other =
     do { (h1, cpy) \<leftarrow> copy h self;
          (h2, cpy') \<leftarrow> extend_loop h1 cpy (iter other);
          Some (h2, self\<lparr>ll_first := ll_first cpy'\<rparr>) }"

definition add ::
  "'a heap \<Rightarrow> linked_list \<Rightarrow> linked_list \<Rightarrow> ('a heap \<times> linked_list) option" where
  "add h self other =
     do { (h1, cpy) \<leftarrow> copy h self;
          extend_loop h1 cpy (iter other) }"

subsection \<open>sort\<close>

text \<open>
  Python's built-in \<open>list.sort(reverse=...)\<close> is stable; with \<open>reverse\<close> it sorts the
  reversed list and reverses the result, so that equal elements keep their order.
\<close>

definition list_sort :: "bool \<Rightarrow> 'a::linorder list \<Rightarrow> 'a list" where
  "list_sort reverse lst = (if reverse then rev (sort (rev lst)) else sort lst)"

definition sort_ll ::
  "'a::linorder heap \<Rightarrow> linked_list \<Rightarrow> bool \<Rightarrow> ('a heap \<times> linked_list) option" where
  "sort_ll h self reverse =
     do { lst \<leftarrow> to_list h self;
          (h', cpy) \<leftarrow> init h (Some (list_sort reverse lst)) None;
          Some (h', self\<lparr>ll_first := ll_first cpy\<rparr>) }"

section \<open>Chains\<close>

text \<open>
  \<open>chain h p as\<close>: following \<open>next\<close> from \<open>p\<close> visits exactly the allocated nodes
  \<open>as\<close>, in this order, and then reaches \<open>None\<close>.
\<close>

fun chain :: "'a heap \<Rightarrow> addr option \<Rightarrow> addr list \<Rightarrow> bool" where
  "chain h None as = (as = [])"
| "chain h (Some a) [] = False"
| "chain h (Some a) (b # bs) = (a = b \<and> a < length h \<and> chain h (nxt (h ! a)) bs)"

definition items_of :: "'a heap \<Rightarrow> addr list \<Rightarrow> 'a list" where
  "items_of h as = map (\<lambda>a. item (h ! a)) as"

text \<open>The invariant of the data model: the cached counter is the number of nodes.\<close>

definition length_ok :: "'a heap \<Rightarrow> linked_list \<Rightarrow> bool" where
  "length_ok h l = (\<exists>as. chain h (ll_first l) as \<and> ll_length l = int (length as))"

section \<open>Facts about chains and the loops that walk them\<close>

lemma chain_bound: "chain h p as \<Longrightarrow> a \<in> set as \<Longrightarrow> a < length h"
  by (induction h p as rule: chain.induct) auto

lemma chain_functional: "chain h p as \<Longrightarrow> chain h p bs \<Longrightarrow> as = bs"
proof (induction h p as arbitrary: bs rule: chain.induct)
  case (1 h as)
  then show ?case by simp
next
  case (2 h a)
  then show ?case by simp
next
  case (3 h a b bs')
  then show ?case by (cases bs) auto
qed

lemma chain_suffix: "chain h p (as @ b # bs) \<Longrightarrow> chain h (Some b) (b # bs)"
proof (induction as arbitrary: p)
  case Nil
  then show ?case by (cases p) auto
next
  case (Cons a as)
  then show ?case by (cases p) auto
qed

lemma chain_distinct: "chain h p as \<Longrightarrow> distinct as"
proof (induction as arbitrary: p)
  case Nil
  then show ?case by simp
next
  case (Cons a as)
  from Cons.prems have p: "p = Some a" and tl: "chain h (nxt (h ! a)) as"
    by (cases p; simp)+
  have "a \<notin> set as"
  proof
    assume "a \<in> set as"
    then obtain us vs where split: "as = us @ a # vs"
      by (auto simp: in_set_conv_decomp)
    with tl have "chain h (Some a) (a # vs)"
      using chain_suffix by fastforce
    with Cons.prems p have "a # as = a # vs"
      using chain_functional by blast
    with split show False by simp
  qed
  with Cons.IH [OF tl] show ?case by simp
qed

lemma chain_update_other: "chain h p as \<Longrightarrow> a \<notin> set as \<Longrightarrow> chain (h[a := v]) p as"
  by (induction h p as rule: chain.induct) auto

lemma chain_alloc: "chain h p as \<Longrightarrow> chain (h @ ns) p as"
  by (induction h p as rule: chain.induct) (auto simp: nth_append)

lemma chain_same_nodes:
  "chain h p as \<Longrightarrow> length h \<le> length h' \<Longrightarrow> \<forall>a\<in>set as. h' ! a = h ! a \<Longrightarrow> chain h' p as"
  by (induction h p as rule: chain.induct) auto

lemma chain_snoc:
  "chain h p (as @ [b]) \<Longrightarrow> c < length h \<Longrightarrow> c \<notin> set as \<Longrightarrow> c \<noteq> b \<Longrightarrow> nxt (h ! c) = None \<Longrightarrow>
   chain (h[b := (h ! b)\<lparr>nxt := Some c\<rparr>]) p (as @ [b, c])"
proof (induction as arbitrary: p)
  case Nil
  then show ?case by (cases p) auto
next
  case (Cons a as)
  from Cons.prems(1) have "distinct (a # as @ [b])"
    using chain_distinct by fastforce
  with Cons show ?case by (cases p) auto
qed

lemma to_list_loop_chain:
  "chain h p as \<Longrightarrow> to_list_loop h acc p = Some (acc @ items_of h as)"
proof (induction as arbitrary: p acc)
  case Nil
  then show ?case by (cases p) (auto simp: to_list_loop.simps items_of_def)
next
  case (Cons a as)
  from Cons.prems have p: "p = Some a" and tl: "chain h (nxt (h ! a)) as"
    by (cases p; simp)+
  show ?case
    by (subst to_list_loop.simps) (simp add: p Cons.IH [OF tl] items_of_def)
qed

lemma to_list_chain: "chain h (ll_first l) as \<Longrightarrow> to_list h l = Some (items_of h as)"
  by (simp add: to_list_def to_list_loop_chain)

lemma append_loop_chain:
  "chain h (Some a) as \<Longrightarrow> append_loop h a = Some (last as)"
proof (induction as arbitrary: a)
  case Nil
  then show ?case by simp
next
  case (Cons b bs)
  show ?case
  proof (cases "nxt (h ! a)")
    case None
    with Cons.prems show ?thesis
      by (subst append_loop.simps) auto
  next
    case (Some n)
    with Cons.prems have "chain h (Some n) bs" by simp
    then have "append_loop h n = Some (last bs)" "bs \<noteq> []"
      using Cons.IH by auto
    with Some show ?thesis
      by (subst append_loop.simps) simp
  qed
qed

lemma items_of_same:
  "\<forall>a\<in>set as. item (h' ! a) = item (h ! a) \<Longrightarrow> items_of h' as = items_of h as"
  by (simp add: items_of_def)

text \<open>What \<open>append\<close> does to a list whose chain is \<open>as\<close>.\<close>

lemma append_ll_chain:
  assumes "chain h (ll_first l) as"
  shows "\<exists>h' l'. append_ll h l x = Some (h', l')
           \<and> chain h' (ll_first l') (as @ [length h])
           \<and> items_of h' (as @ [length h]) = items_of h as @ [x]
           \<and> ll_length l' = ll_length l + 1
           \<and> length h' = Suc (length h)
           \<and> (\<forall>a. a < length h \<and> a \<notin> set as \<longrightarrow> h' ! a = h ! a)
           \<and> (\<forall>a. a < length h \<longrightarrow> item (h' ! a) = item (h ! a))
           \<and> (as \<noteq> [] \<longrightarrow> ll_first l' = ll_first l)"
proof (cases "ll_first l")
  case None
  with assms have "as = []" by simp
  with None show ?thesis
    by (simp add: append_ll_def items_of_def nth_append Let_def)
next
  case (Some f)
  let ?n = "\<lparr>item = x, nxt = None\<rparr>"
  let ?h1 = "h @ [?n]"
  from assms Some have ne: "as \<noteq> []" by auto
  then obtain bs b where as: "as = bs @ [b]"
    by (metis rev_exhaust)
  from assms have bound: "\<forall>a\<in>set as. a < length h"
    using chain_bound by blast
  from assms have dist: "distinct as"
    by (rule chain_distinct)
  have c1: "chain ?h1 (Some f) (bs @ [b])"
    using assms Some as chain_alloc by fastforce
  then have walk: "append_loop ?h1 f = Some b"
    using append_loop_chain by fastforce
  let ?h' = "?h1[b := (?h1 ! b)\<lparr>nxt := Some (length h)\<rparr>]"
  have res: "append_ll h l x = Some (?h', l\<lparr>ll_length := ll_length l + 1\<rparr>)"
    by (simp add: append_ll_def Some walk Let_def)
  have "chain ?h' (Some f) (bs @ [b, length h])"
    using c1 bound dist as by (intro chain_snoc) auto
  then have ch: "chain ?h' (ll_first l) (as @ [length h])"
    by (simp add: Some as)
  have b: "b < length h" using bound as by simp
  have it: "items_of ?h' (as @ [length h]) = items_of h as @ [x]"
    using bound b by (auto simp: items_of_def nth_append nth_list_update)
  have fr: "\<forall>a. a < length h \<and> a \<notin> set as \<longrightarrow> ?h' ! a = h ! a"
    using as by (auto simp: nth_append nth_list_update)
  have fi: "\<forall>a. a < length h \<longrightarrow> item (?h' ! a) = item (h ! a)"
    using b by (auto simp: nth_append nth_list_update)
  show ?thesis
    using res ch it fr fi by simp
qed

text \<open>The constructor's loop appends fresh nodes to the end of the chain.\<close>

lemma init_loop_chain:
  assumes "chain h (ll_first l) as"
  shows "\<exists>h' l' bs. init_loop h l xs = Some (h', l')
           \<and> chain h' (ll_first l') (as @ bs)
           \<and> items_of h' (as @ bs) = items_of h as @ xs
           \<and> ll_length l' = ll_length l + int (length xs)
           \<and> length h' = length h + length xs
           \<and> (\<forall>a. a < length h \<and> a \<notin> set as \<longrightarrow> h' ! a = h ! a)
           \<and> (\<forall>a. a < length h \<longrightarrow> item (h' ! a) = item (h ! a))"
  using assms
proof (induction xs arbitrary: h l as)
  case Nil
  then show ?case by (simp add: exI [of _ "[]"])
next
  case (Cons x xs)
  from append_ll_chain [OF Cons.prems, of x]
  obtain h1 l1 where
    1: "append_ll h l x = Some (h1, l1)"
    and 2: "chain h1 (ll_first l1) (as @ [length h])"
    and 3: "items_of h1 (as @ [length h]) = items_of h as @ [x]"
    and 4: "ll_length l1 = ll_length l + 1"
    and 5: "length h1 = Suc (length h)"
    and 6: "\<forall>a. a < length h \<and> a \<notin> set as \<longrightarrow> h1 ! a = h ! a"
    and 7: "\<forall>a. a < length h \<longrightarrow> item (h1 ! a) = item (h ! a)"
    by (elim exE conjE) (rule that)
  from Cons.IH [OF 2]
  obtain h' l' bs where
    a: "init_loop h1 l1 xs = Some (h', l')"
    and b: "chain h' (ll_first l') ((as @ [length h]) @ bs)"
    and c: "items_of h' ((as @ [length h]) @ bs) = items_of h1 (as @ [length h]) @ xs"
    and d: "ll_length l' = ll_length l1 + int (length xs)"
    and e: "length h' = length h1 + length xs"
    and f: "\<forall>a. a < length h1 \<and> a \<notin> set (as @ [length h]) \<longrightarrow> h' ! a = h1 ! a"
    and g: "\<forall>a. a < length h1 \<longrightarrow> item (h' ! a) = item (h1 ! a)"
    by (elim exE conjE) (rule that)
  have r1: "init_loop h l (x # xs) = Some (h', l')"
    using 1 a by simp
  have r2: "chain h' (ll_first l') (as @ (length h # bs))"
    using b by simp
  have r3: "items_of h' (as @ (length h # bs)) = items_of h as @ x # xs"
    using c 3 by simp
  have r4: "ll_length l' = ll_length l + int (length (x # xs))"
    using d 4 by simp
  have r5: "length h' = length h + length (x # xs)"
    using e 5 by simp
  have r6: "\<forall>a. a < length h \<and> a \<notin> set as \<longrightarrow> h' ! a = h ! a"
    using f 6 5 by auto
  have r7: "\<forall>a. a < length h \<longrightarrow> item (h' ! a) = item (h ! a)"
    using g 7 5 by auto
  show ?case
    by (rule exI [of _ h'], rule exI [of _ l'], rule exI [of _ "length h # bs"])
       (use r1 r2 r3 r4 r5 r6 r7 in \<open>intro conjI\<close>)
qed

text \<open>
  The loop of \<open>extend\<close> and \<open>__add__\<close> when the iterator walks a chain \<open>bs\<close> that
  shares no node with the chain \<open>as\<close> being appended to.
\<close>

lemma extend_loop_disjoint:
  assumes "chain h (ll_first c) as" and "chain h (it_curr it) bs" and "set as \<inter> set bs = {}"
  shows "\<exists>h' c' cs. extend_loop h c it = Some (h', c')
           \<and> chain h' (ll_first c') (as @ cs)
           \<and> items_of h' (as @ cs) = items_of h as @ items_of h bs
           \<and> length cs = length bs
           \<and> ll_length c' = ll_length c + int (length bs)
           \<and> length h \<le> length h'
           \<and> (\<forall>a. a < length h \<and> a \<notin> set as \<longrightarrow> h' ! a = h ! a)
           \<and> (as \<noteq> [] \<longrightarrow> ll_first c' = ll_first c)"
  using assms
proof (induction bs arbitrary: h c as it)
  case Nil
  then have "it_curr it = None" by (cases "it_curr it") auto
  then have "extend_loop h c it = Some (h, c)"
    by (subst extend_loop.simps) (simp add: next_it_def)
  with Nil show ?case by (auto simp: items_of_def)
next
  case (Cons b bs)
  from Cons.prems(2) have it: "it_curr it = Some b" and b: "b < length h"
    and tl: "chain h (nxt (h ! b)) bs"
    by (cases "it_curr it"; simp)+
  let ?x = "item (h ! b)"
  let ?it' = "it\<lparr>it_curr := nxt (h ! b)\<rparr>"
  have nx: "next_it h it = Inr (?x, ?it')"
    by (simp add: next_it_def it)
  from append_ll_chain [OF Cons.prems(1), of ?x]
  obtain h1 c1 where
    1: "append_ll h c ?x = Some (h1, c1)"
    and 2: "chain h1 (ll_first c1) (as @ [length h])"
    and 3: "items_of h1 (as @ [length h]) = items_of h as @ [?x]"
    and 4: "ll_length c1 = ll_length c + 1"
    and 5: "length h1 = Suc (length h)"
    and 6: "\<forall>a. a < length h \<and> a \<notin> set as \<longrightarrow> h1 ! a = h ! a"
    and 7: "as \<noteq> [] \<longrightarrow> ll_first c1 = ll_first c"
    by (elim exE conjE) (rule that)
  have bsb: "\<forall>a\<in>set bs. a < length h"
    using tl chain_bound by blast
  have same: "\<forall>a\<in>set bs. h1 ! a = h ! a"
  proof
    fix a assume "a \<in> set bs"
    then have "a < length h" "a \<notin> set as"
      using bsb Cons.prems(3) by auto
    then show "h1 ! a = h ! a" using 6 by simp
  qed
  have "chain h1 (nxt (h ! b)) bs"
    by (rule chain_same_nodes [OF tl _ same]) (simp add: 5)
  then have tl1: "chain h1 (it_curr ?it') bs" by simp
  have dj: "set (as @ [length h]) \<inter> set bs = {}"
    using Cons.prems(3) bsb by auto
  from Cons.IH [OF 2 tl1 dj]
  obtain h' c' cs where
    a: "extend_loop h1 c1 ?it' = Some (h', c')"
    and b': "chain h' (ll_first c') ((as @ [length h]) @ cs)"
    and c: "items_of h' ((as @ [length h]) @ cs) = items_of h1 (as @ [length h]) @ items_of h1 bs"
    and d: "length cs = length bs"
    and e: "ll_length c' = ll_length c1 + int (length bs)"
    and f: "length h1 \<le> length h'"
    and g: "\<forall>a. a < length h1 \<and> a \<notin> set (as @ [length h]) \<longrightarrow> h' ! a = h1 ! a"
    and i: "(as @ [length h]) \<noteq> [] \<longrightarrow> ll_first c' = ll_first c1"
    by (elim exE conjE) (rule that)
  have r1: "extend_loop h c it = Some (h', c')"
    by (subst extend_loop.simps) (simp add: nx 1 a)
  have r2: "chain h' (ll_first c') (as @ (length h # cs))"
    using b' by simp
  have eq: "items_of h1 bs = items_of h bs"
    by (rule items_of_same) (simp add: same)
  have "items_of h' (as @ (length h # cs)) = items_of h' ((as @ [length h]) @ cs)"
    by simp
  also have "\<dots> = items_of h1 (as @ [length h]) @ items_of h1 bs"
    by (rule c)
  also have "\<dots> = (items_of h as @ [?x]) @ items_of h bs"
    by (simp only: 3 eq)
  also have "\<dots> = items_of h as @ items_of h (b # bs)"
    by (simp add: items_of_def)
  finally have r3: "items_of h' (as @ (length h # cs)) = items_of h as @ items_of h (b # bs)" .
  have r4: "length (length h # cs) = length (b # bs)"
    using d by simp
  have r5: "ll_length c' = ll_length c + int (length (b # bs))"
    using e 4 by simp
  have r6: "length h \<le> length h'"
    using f 5 by simp
  have r7: "\<forall>a. a < length h \<and> a \<notin> set as \<longrightarrow> h' ! a = h ! a"
    using g 6 5 by auto
  have r8: "as \<noteq> [] \<longrightarrow> ll_first c' = ll_first c"
    using i 7 by simp
  show ?case
    by (rule exI [of _ h'], rule exI [of _ c'], rule exI [of _ "length h # cs"])
       (use r1 r2 r3 r4 r5 r6 r7 r8 in \<open>intro conjI\<close>)
qed

section \<open>copy, extend and the operator form\<close>

text \<open>
  C9. For every list, \<open>copy\<close> (the spec's duplicate) returns a list whose cached length
  is 0 and whose head is the head of the original, in an unchanged heap; so the copy of
  a list with nodes answers 0 while its chain is the original's chain.
\<close>

theorem copy_shares_head_length_zero:
  "\<exists>d. copy h l = Some (h, d) \<and> len d = 0 \<and> ll_first d = ll_first l
       \<and> chain h (ll_first d) = chain h (ll_first l)
       \<and> to_list h d = to_list h l"
  by (simp add: copy_def init_def len_def to_list_def)

text \<open>
  C3. When the chains of \<open>L\<close> and \<open>M\<close> share no node, \<open>extend\<close> returns, the
  elements of \<open>L\<close> afterwards are the old elements of \<open>L\<close> followed by those of
  \<open>M\<close>, and the elements of \<open>M\<close> are the same as before.
\<close>

theorem extend_disjoint_elements:
  assumes "chain h (ll_first L) as" and "chain h (ll_first M) bs"
    and "set as \<inter> set bs = {}"
  shows "\<exists>h' L'. extend_ll h L M = Some (h', L')
           \<and> to_list h L = Some (items_of h as)
           \<and> to_list h M = Some (items_of h bs)
           \<and> to_list h' L' = Some (items_of h as @ items_of h bs)
           \<and> to_list h' M = Some (items_of h bs)"
proof -
  let ?c = "\<lparr>ll_first = ll_first L, ll_length = 0\<rparr>"
  have cp: "copy h L = Some (h, ?c)"
    by (simp add: copy_def init_def)
  have "chain h (ll_first ?c) as" "chain h (it_curr (iter M)) bs"
    using assms by (simp_all add: iter_def)
  from extend_loop_disjoint [OF this assms(3)]
  obtain h' c' cs where
    1: "extend_loop h ?c (iter M) = Some (h', c')"
    and 2: "chain h' (ll_first c') (as @ cs)"
    and 3: "items_of h' (as @ cs) = items_of h as @ items_of h bs"
    and 4: "length h \<le> length h'"
    and 5: "\<forall>a. a < length h \<and> a \<notin> set as \<longrightarrow> h' ! a = h ! a"
    by (elim exE conjE) (rule that)
  let ?L' = "L\<lparr>ll_first := ll_first c'\<rparr>"
  have r1: "extend_ll h L M = Some (h', ?L')"
    by (simp add: extend_ll_def cp 1)
  have r2: "to_list h L = Some (items_of h as)"
    using assms(1) by (rule to_list_chain)
  have r3: "to_list h M = Some (items_of h bs)"
    using assms(2) by (rule to_list_chain)
  have "chain h' (ll_first ?L') (as @ cs)"
    using 2 by simp
  then have r4: "to_list h' ?L' = Some (items_of h as @ items_of h bs)"
    using 3 to_list_chain by fastforce
  have same: "\<forall>a\<in>set bs. h' ! a = h ! a"
  proof
    fix a assume "a \<in> set bs"
    then have "a < length h" "a \<notin> set as"
      using chain_bound [OF assms(2)] assms(3) by auto
    then show "h' ! a = h ! a" using 5 by simp
  qed
  have "chain h' (ll_first M) bs"
    by (rule chain_same_nodes [OF assms(2) 4 same])
  then have "to_list h' M = Some (items_of h' bs)"
    by (rule to_list_chain)
  moreover have "items_of h' bs = items_of h bs"
    by (rule items_of_same) (simp add: same)
  ultimately have r5: "to_list h' M = Some (items_of h bs)"
    by simp
  show ?thesis
    by (rule exI [of _ h'], rule exI [of _ ?L'])
       (use r1 r2 r3 r4 r5 in \<open>intro conjI\<close>)
qed

theorem extend_disjoint_elements_witness:
  "chain [\<lparr>item = 1::int, nxt = Some 1\<rparr>, \<lparr>item = 2, nxt = None\<rparr>, \<lparr>item = 3, nxt = None\<rparr>]
     (ll_first \<lparr>ll_first = Some 0, ll_length = 2\<rparr>) [0, 1]
   \<and> chain [\<lparr>item = 1::int, nxt = Some 1\<rparr>, \<lparr>item = 2, nxt = None\<rparr>, \<lparr>item = 3, nxt = None\<rparr>]
     (ll_first \<lparr>ll_first = Some 2, ll_length = 1\<rparr>) [2]
   \<and> set [0, 1::nat] \<inter> set [2] = {}
   \<and> (\<exists>h' L'. extend_ll [\<lparr>item = 1::int, nxt = Some 1\<rparr>, \<lparr>item = 2, nxt = None\<rparr>, \<lparr>item = 3, nxt = None\<rparr>]
                  \<lparr>ll_first = Some 0, ll_length = 2\<rparr> \<lparr>ll_first = Some 2, ll_length = 1\<rparr> = Some (h', L')
        \<and> to_list h' L' = Some [1, 2, 3]
        \<and> to_list h' \<lparr>ll_first = Some 2, ll_length = 1\<rparr> = Some [3])"
proof -
  let ?h = "[\<lparr>item = 1::int, nxt = Some 1\<rparr>, \<lparr>item = 2, nxt = None\<rparr>, \<lparr>item = 3, nxt = None\<rparr>]"
  let ?L = "\<lparr>ll_first = Some 0, ll_length = 2\<rparr>"
  let ?M = "\<lparr>ll_first = Some 2, ll_length = 1\<rparr>"
  have a: "chain ?h (ll_first ?L) [0, 1]" by simp
  have b: "chain ?h (ll_first ?M) [2]" by simp
  have c: "set [0, 1::nat] \<inter> set [2] = {}" by simp
  from extend_disjoint_elements [OF a b c]
  have "\<exists>h' L'. extend_ll ?h ?L ?M = Some (h', L')
        \<and> to_list h' L' = Some [1, 2, 3]
        \<and> to_list h' ?M = Some [3]"
    by (simp add: items_of_def) blast
  with a b c show ?thesis by blast
qed

section \<open>A list extended by itself\<close>

text \<open>
  While the iterator's node is in the chain being appended to and is not its last node,
  the loop of \<open>extend\<close> and \<open>__add__\<close> keeps this situation: each pass moves the
  iterator one node on and adds one node at the end. So the loop returns nothing.
\<close>

lemma extend_loop_shared_aux:
  assumes "extend_loop h c it = Some y"
  shows "\<not> (\<exists>pre b post. chain h (ll_first c) (pre @ b # post) \<and> post \<noteq> []
              \<and> it_curr it = Some b)"
proof (rule extend_loop.raw_induct
    [where P = "\<lambda>h c it y. \<not> (\<exists>pre b post. chain h (ll_first c) (pre @ b # post)
                   \<and> post \<noteq> [] \<and> it_curr it = Some b)", OF _ assms])
  fix loop :: "'a heap \<Rightarrow> linked_list \<Rightarrow> linked_list_iterator \<Rightarrow> ('a heap \<times> linked_list) option"
  fix h c it y
  assume IH: "\<And>h c it y. loop h c it = Some y \<Longrightarrow>
      \<not> (\<exists>pre b post. chain h (ll_first c) (pre @ b # post) \<and> post \<noteq> []
            \<and> it_curr it = Some b)"
    and body: "(case next_it h it of
                  Inl e \<Rightarrow> Some (h, c)
                | Inr (x, it') \<Rightarrow>
                    append_ll h c x \<bind> (\<lambda>(h', c'). loop h' c' it')) = Some y"
  show "\<not> (\<exists>pre b post. chain h (ll_first c) (pre @ b # post) \<and> post \<noteq> []
            \<and> it_curr it = Some b)"
  proof
    assume "\<exists>pre b post. chain h (ll_first c) (pre @ b # post) \<and> post \<noteq> [] \<and> it_curr it = Some b"
    then obtain pre b post where ch: "chain h (ll_first c) (pre @ b # post)"
      and ne: "post \<noteq> []" and it: "it_curr it = Some b"
      by blast
    from ne obtain p post' where post: "post = p # post'"
      by (cases post) auto
    from ch have "chain h (Some b) (b # p # post')"
      unfolding post by (rule chain_suffix)
    then have nb: "nxt (h ! b) = Some p"
      by (cases "nxt (h ! b)") auto
    let ?it' = "it\<lparr>it_curr := Some p\<rparr>"
    have nx: "next_it h it = Inr (item (h ! b), ?it')"
      by (simp add: next_it_def it nb)
    from append_ll_chain [OF ch, of "item (h ! b)"]
    obtain h1 c1 where
      ap: "append_ll h c (item (h ! b)) = Some (h1, c1)"
      and ch1: "chain h1 (ll_first c1) ((pre @ b # post) @ [length h])"
      by (elim exE conjE) (rule that)
    from body have "loop h1 c1 ?it' = Some y"
      by (simp add: nx ap)
    from IH [OF this]
    have no: "\<not> (\<exists>pre b post. chain h1 (ll_first c1) (pre @ b # post) \<and> post \<noteq> []
                 \<and> it_curr ?it' = Some b)" .
    have "chain h1 (ll_first c1) ((pre @ [b]) @ p # (post' @ [length h]))"
      using ch1 by (simp add: post)
    moreover have "post' @ [length h] \<noteq> []" by simp
    moreover have "it_curr ?it' = Some p" by simp
    ultimately show False using no by blast
  qed
qed

lemma extend_loop_shared:
  assumes "chain h (ll_first c) (pre @ b # post)" and "post \<noteq> []" and "it_curr it = Some b"
  shows "extend_loop h c it = None"
proof (cases "extend_loop h c it")
  case None
  then show ?thesis .
next
  case (Some y)
  from extend_loop_shared_aux [OF this] assms show ?thesis by blast
qed


text \<open>
  C10, as amended. For every list with at least two nodes, neither \<open>L.extend(L)\<close> nor
  \<open>L + L\<close> returns: the copy shares the chain of \<open>L\<close>, so every append lengthens the
  chain the iterator is walking, and the iterator never reaches its end.
\<close>

theorem self_extend_diverges:
  assumes "chain h (ll_first L) as" and "2 \<le> length as"
  shows "extend_ll h L L = None \<and> add h L L = None"
proof -
  from assms(2) obtain a b bs where as: "as = a # b # bs"
    by (cases as; cases "tl as") auto
  with assms(1) have f: "ll_first L = Some a"
    by (cases "ll_first L") auto
  let ?c = "\<lparr>ll_first = ll_first L, ll_length = 0\<rparr>"
  have cp: "copy h L = Some (h, ?c)"
    by (simp add: copy_def init_def)
  have "chain h (ll_first ?c) ([] @ a # (b # bs))"
    using assms(1) as by simp
  moreover have "b # bs \<noteq> []" by simp
  moreover have "it_curr (iter L) = Some a"
    by (simp add: iter_def f)
  ultimately have "extend_loop h ?c (iter L) = None"
    by (rule extend_loop_shared)
  then show ?thesis
    by (simp add: extend_ll_def add_def cp)
qed

theorem self_extend_diverges_witness:
  "chain [\<lparr>item = 1::int, nxt = Some 1\<rparr>, \<lparr>item = 2, nxt = None\<rparr>]
     (ll_first \<lparr>ll_first = Some 0, ll_length = 2\<rparr>) [0, 1]
   \<and> 2 \<le> length [0, 1::nat]
   \<and> extend_ll [\<lparr>item = 1::int, nxt = Some 1\<rparr>, \<lparr>item = 2, nxt = None\<rparr>]
       \<lparr>ll_first = Some 0, ll_length = 2\<rparr> \<lparr>ll_first = Some 0, ll_length = 2\<rparr> = None
   \<and> add [\<lparr>item = 1::int, nxt = Some 1\<rparr>, \<lparr>item = 2, nxt = None\<rparr>]
       \<lparr>ll_first = Some 0, ll_length = 2\<rparr> \<lparr>ll_first = Some 0, ll_length = 2\<rparr> = None"
proof -
  let ?h = "[\<lparr>item = 1::int, nxt = Some 1\<rparr>, \<lparr>item = 2, nxt = None\<rparr>]"
  let ?L = "\<lparr>ll_first = Some 0, ll_length = 2\<rparr>"
  have a: "chain ?h (ll_first ?L) [0, 1]" by simp
  have b: "2 \<le> length [0, 1::nat]" by simp
  from self_extend_diverges [OF a b] a b show ?thesis by simp
qed

text \<open>
  The claim C10 as stated, for every non-empty list, fails on a list of one node: the
  iterator reads the \<open>next\<close> link of the only node, which is \<open>None\<close>, before the first
  append, so the loop ends after one pass and both calls return the chain \<open>[1, 1]\<close>.
\<close>

theorem self_extend_single_node_returns:
  "init [] (Some [1::int]) None
     = Some ([\<lparr>item = 1, nxt = None\<rparr>], \<lparr>ll_first = Some 0, ll_length = 1\<rparr>)
   \<and> extend_ll [\<lparr>item = 1::int, nxt = None\<rparr>]
       \<lparr>ll_first = Some 0, ll_length = 1\<rparr> \<lparr>ll_first = Some 0, ll_length = 1\<rparr>
     = Some ([\<lparr>item = 1, nxt = Some 1\<rparr>, \<lparr>item = 1, nxt = None\<rparr>],
             \<lparr>ll_first = Some 0, ll_length = 1\<rparr>)
   \<and> add [\<lparr>item = 1::int, nxt = None\<rparr>]
       \<lparr>ll_first = Some 0, ll_length = 1\<rparr> \<lparr>ll_first = Some 0, ll_length = 1\<rparr>
     = Some ([\<lparr>item = 1, nxt = Some 1\<rparr>, \<lparr>item = 1, nxt = None\<rparr>],
             \<lparr>ll_first = Some 0, ll_length = 1\<rparr>)"
  by (simp add: extend_ll_def add_def copy_def init_def iter_def extend_loop.simps next_it_def
      append_ll_def Let_def append_loop.simps)

section \<open>The operator form and its left operand\<close>

text \<open>
  C2 at a concrete input. \<open>L\<close> is built from \<open>[1]\<close> and \<open>M\<close> from \<open>[2]\<close>; their chains
  share no node. \<open>L + M\<close> writes the \<open>next\<close> link of the node of \<open>L\<close>: afterwards
  \<open>L\<close> holds \<open>[1, 2]\<close>, with its length still 1.
\<close>

theorem add_changes_self:
  "init [] (Some [1::int]) None
     = Some ([\<lparr>item = 1, nxt = None\<rparr>], \<lparr>ll_first = Some 0, ll_length = 1\<rparr>)
   \<and> init [\<lparr>item = 1::int, nxt = None\<rparr>] (Some [2]) None
     = Some ([\<lparr>item = 1, nxt = None\<rparr>, \<lparr>item = 2, nxt = None\<rparr>],
             \<lparr>ll_first = Some 1, ll_length = 1\<rparr>)
   \<and> to_list [\<lparr>item = 1::int, nxt = None\<rparr>, \<lparr>item = 2, nxt = None\<rparr>]
       \<lparr>ll_first = Some 0, ll_length = 1\<rparr> = Some [1]
   \<and> add [\<lparr>item = 1::int, nxt = None\<rparr>, \<lparr>item = 2, nxt = None\<rparr>]
       \<lparr>ll_first = Some 0, ll_length = 1\<rparr> \<lparr>ll_first = Some 1, ll_length = 1\<rparr>
     = Some ([\<lparr>item = 1, nxt = Some 2\<rparr>, \<lparr>item = 2, nxt = None\<rparr>, \<lparr>item = 2, nxt = None\<rparr>],
             \<lparr>ll_first = Some 0, ll_length = 1\<rparr>)
   \<and> to_list [\<lparr>item = 1::int, nxt = Some 2\<rparr>, \<lparr>item = 2, nxt = None\<rparr>, \<lparr>item = 2, nxt = None\<rparr>]
       \<lparr>ll_first = Some 0, ll_length = 1\<rparr> = Some [1, 2]"
  by (simp add: add_def copy_def init_def iter_def extend_loop.simps next_it_def
      append_ll_def Let_def append_loop.simps to_list_def to_list_loop.simps)

section \<open>Reading by position and comparing\<close>

lemma getitem_loop_chain:
  "chain h p as \<Longrightarrow>
   getitem_loop h i p k =
     Some (if k \<le> i \<and> i - k < int (length as) then Some (as ! nat (i - k)) else None)"
proof (induction as arbitrary: p k)
  case Nil
  then have "p = None" by (cases p) auto
  then show ?case
    by (subst getitem_loop.simps) auto
next
  case (Cons a as)
  from Cons.prems have p: "p = Some a" and tl: "chain h (nxt (h ! a)) as"
    by (cases p; simp)+
  show ?case
  proof (cases "k = i")
    case True
    then show ?thesis
      by (subst getitem_loop.simps) (simp add: p)
  next
    case False
    have "getitem_loop h i p k = getitem_loop h i (nxt (h ! a)) (k + 1)"
      using False by (subst getitem_loop.simps) (simp add: p)
    also have "\<dots> = Some (if k + 1 \<le> i \<and> i - (k + 1) < int (length as)
                          then Some (as ! nat (i - (k + 1))) else None)"
      by (rule Cons.IH [OF tl])
    also have "\<dots> = Some (if k \<le> i \<and> i - k < int (length (a # as))
                          then Some ((a # as) ! nat (i - k)) else None)"
    proof (cases "k + 1 \<le> i \<and> i - (k + 1) < int (length as)")
      case True
      then have "nat (i - k) = Suc (nat (i - (k + 1)))" by linarith
      with True show ?thesis by auto
    next
      case False
      with \<open>k \<noteq> i\<close> show ?thesis by auto
    qed
    finally show ?thesis .
  qed
qed

text \<open>
  On a list whose cached length \<open>n\<close> is the number of its nodes, \<open>__getitem__\<close>
  returns; for \<open>- n \<le> i < n\<close> it returns the element at position \<open>i\<close>, or \<open>n + i\<close> when
  \<open>i\<close> is negative, and for every other \<open>i\<close> it raises IndexError.
\<close>

lemma getitem_negative_index:
  assumes "chain h (ll_first L) as" and "ll_length L = int (length as)"
  shows "getitem h L i =
           Some (if - int (length as) \<le> i \<and> i < int (length as)
                 then Inr (items_of h as ! nat (if i < 0 then int (length as) + i else i))
                 else Inl IndexError)"
proof -
  define n where "n = int (length as)"
  define j where "j = (if i < 0 then n + i else i)"
  have call: "getitem h L i =
      getitem_loop h j (ll_first L) 0
        \<bind> (\<lambda>cur. Some (case cur of None \<Rightarrow> Inl IndexError | Some c \<Rightarrow> Inr (item (h ! c))))"
    by (simp add: getitem_def Let_def j_def n_def assms(2))
  have loop: "getitem_loop h j (ll_first L) 0 =
          Some (if 0 \<le> j \<and> j - 0 < n then Some (as ! nat (j - 0)) else None)"
    unfolding n_def by (rule getitem_loop_chain [OF assms(1)])
  have range: "(- n \<le> i \<and> i < n) \<longleftrightarrow> (0 \<le> j \<and> j < n)"
    unfolding j_def n_def by auto
  have "getitem h L i = Some (if - n \<le> i \<and> i < n then Inr (items_of h as ! nat j) else Inl IndexError)"
  proof (cases "0 \<le> j \<and> j < n")
    case True
    then have "nat j < length as" unfolding n_def by linarith
    then have "item (h ! (as ! nat j)) = items_of h as ! nat j"
      by (simp add: items_of_def)
    with True show ?thesis
      by (simp add: call loop range)
  next
    case False
    then show ?thesis
      by (auto simp add: call loop range)
  qed
  then show ?thesis
    unfolding j_def n_def .
qed

lemma getitem_negative_index_on_1_2_3:
  "chain [\<lparr>item = 1::int, nxt = Some 1\<rparr>, \<lparr>item = 2, nxt = Some 2\<rparr>, \<lparr>item = 3, nxt = None\<rparr>]
     (ll_first \<lparr>ll_first = Some 0, ll_length = 3\<rparr>) [0, 1, 2]
   \<and> ll_length \<lparr>ll_first = Some 0, ll_length = 3\<rparr> = int (length [0, 1, 2::nat])
   \<and> getitem [\<lparr>item = 1::int, nxt = Some 1\<rparr>, \<lparr>item = 2, nxt = Some 2\<rparr>, \<lparr>item = 3, nxt = None\<rparr>]
       \<lparr>ll_first = Some 0, ll_length = 3\<rparr> (- 1) = Some (Inr 3)
   \<and> getitem [\<lparr>item = 1::int, nxt = Some 1\<rparr>, \<lparr>item = 2, nxt = Some 2\<rparr>, \<lparr>item = 3, nxt = None\<rparr>]
       \<lparr>ll_first = Some 0, ll_length = 3\<rparr> (- 3) = Some (Inr 1)
   \<and> getitem [\<lparr>item = 1::int, nxt = Some 1\<rparr>, \<lparr>item = 2, nxt = Some 2\<rparr>, \<lparr>item = 3, nxt = None\<rparr>]
       \<lparr>ll_first = Some 0, ll_length = 3\<rparr> (- 4) = Some (Inl IndexError)"
proof -
  let ?h = "[\<lparr>item = 1::int, nxt = Some 1\<rparr>, \<lparr>item = 2, nxt = Some 2\<rparr>, \<lparr>item = 3, nxt = None\<rparr>]"
  let ?L = "\<lparr>ll_first = Some 0, ll_length = 3\<rparr>"
  have a: "chain ?h (ll_first ?L) [0, 1, 2]" by simp
  have b: "ll_length ?L = int (length [0, 1, 2::nat])" by simp
  have "getitem ?h ?L (- 1) = Some (Inr 3)"
    using getitem_negative_index [OF a b, of "- 1"] by (simp add: items_of_def)
  moreover have "getitem ?h ?L (- 3) = Some (Inr 1)"
    using getitem_negative_index [OF a b, of "- 3"] by (simp add: items_of_def)
  moreover have "getitem ?h ?L (- 4) = Some (Inl IndexError)"
    using getitem_negative_index [OF a b, of "- 4"] by (simp add: items_of_def)
  ultimately show ?thesis using a b by simp
qed

text \<open>
  C5 at a concrete input. The copy of the list built from \<open>[1, 2, 3]\<close> holds the three
  elements and has cached length 0. \<open>__getitem__\<close> adds the cached length to a negative
  index, so on the copy \<open>- 1\<close> and \<open>- 3\<close> stay negative and raise IndexError, where the
  claim gives the elements 3 and 1; the index 2 returns 3.
\<close>

theorem getitem_on_copy_negative_index_raises:
  "copy [\<lparr>item = 1::int, nxt = Some 1\<rparr>, \<lparr>item = 2, nxt = Some 2\<rparr>, \<lparr>item = 3, nxt = None\<rparr>]
       \<lparr>ll_first = Some 0, ll_length = 3\<rparr>
     = Some ([\<lparr>item = 1, nxt = Some 1\<rparr>, \<lparr>item = 2, nxt = Some 2\<rparr>, \<lparr>item = 3, nxt = None\<rparr>],
             \<lparr>ll_first = Some 0, ll_length = 0\<rparr>)
   \<and> to_list [\<lparr>item = 1::int, nxt = Some 1\<rparr>, \<lparr>item = 2, nxt = Some 2\<rparr>, \<lparr>item = 3, nxt = None\<rparr>]
       \<lparr>ll_first = Some 0, ll_length = 0\<rparr> = Some [1, 2, 3]
   \<and> len \<lparr>ll_first = Some 0, ll_length = 0\<rparr> = 0
   \<and> getitem [\<lparr>item = 1::int, nxt = Some 1\<rparr>, \<lparr>item = 2, nxt = Some 2\<rparr>, \<lparr>item = 3, nxt = None\<rparr>]
       \<lparr>ll_first = Some 0, ll_length = 0\<rparr> (- 1) = Some (Inl IndexError)
   \<and> getitem [\<lparr>item = 1::int, nxt = Some 1\<rparr>, \<lparr>item = 2, nxt = Some 2\<rparr>, \<lparr>item = 3, nxt = None\<rparr>]
       \<lparr>ll_first = Some 0, ll_length = 0\<rparr> (- 3) = Some (Inl IndexError)
   \<and> getitem [\<lparr>item = 1::int, nxt = Some 1\<rparr>, \<lparr>item = 2, nxt = Some 2\<rparr>, \<lparr>item = 3, nxt = None\<rparr>]
       \<lparr>ll_first = Some 0, ll_length = 0\<rparr> 2 = Some (Inr 3)
   \<and> getitem [\<lparr>item = 1::int, nxt = Some 1\<rparr>, \<lparr>item = 2, nxt = Some 2\<rparr>, \<lparr>item = 3, nxt = None\<rparr>]
       \<lparr>ll_first = Some 0, ll_length = 3\<rparr> (- 1) = Some (Inr 3)"
  by (simp add: copy_def init_def len_def to_list_def to_list_loop.simps getitem_def Let_def
      getitem_loop.simps)

lemma eq_loop_chain:
  "chain h p as \<Longrightarrow> chain h q bs \<Longrightarrow>
   eq_loop h e p q =
     Some (e \<and> (\<forall>i < min (length as) (length bs). items_of h as ! i = items_of h bs ! i))"
proof (induction as arbitrary: p q bs e)
  case Nil
  then have "p = None" by (cases p) auto
  then show ?case
    by (subst eq_loop.simps) simp
next
  case (Cons a as)
  from Cons.prems(1) have p: "p = Some a" and tl: "chain h (nxt (h ! a)) as"
    by (cases p; simp)+
  show ?case
  proof (cases bs)
    case Nil
    with Cons.prems(2) have "q = None" by (cases q) auto
    with Nil show ?thesis
      by (subst eq_loop.simps) (simp add: p)
  next
    case (Cons b bs')
    with Cons.prems(2) have q: "q = Some b" and tl': "chain h (nxt (h ! b)) bs'"
      by (cases q; simp)+
    have all: "(\<forall>i < min (length (a # as)) (length (b # bs')).
                  items_of h (a # as) ! i = items_of h (b # bs') ! i)
               \<longleftrightarrow> item (h ! a) = item (h ! b)
                   \<and> (\<forall>i < min (length as) (length bs'). items_of h as ! i = items_of h bs' ! i)"
      by (simp add: items_of_def All_less_Suc2)
    show ?thesis
    proof (cases e)
      case True
      have "eq_loop h e p q =
              eq_loop h (item (h ! a) = item (h ! b)) (nxt (h ! a)) (nxt (h ! b))"
        using True by (subst eq_loop.simps) (simp add: p q)
      also have "\<dots> = Some (item (h ! a) = item (h ! b)
              \<and> (\<forall>i < min (length as) (length bs'). items_of h as ! i = items_of h bs' ! i))"
        by (rule Cons.IH [OF tl tl'])
      finally show ?thesis
        using True all Cons by simp
    next
      case False
      then show ?thesis
        by (subst eq_loop.simps) (simp add: p q)
    qed
  qed
qed


lemma agree_on_common_iff_prefix:
  "(\<forall>i < min (length xs) (length ys). xs ! i = ys ! i) \<longleftrightarrow> prefix xs ys \<or> prefix ys xs"
proof
  assume agree: "\<forall>i < min (length xs) (length ys). xs ! i = ys ! i"
  show "prefix xs ys \<or> prefix ys xs"
  proof (cases "length xs \<le> length ys")
    case True
    with agree have "take (length xs) ys = xs"
      by (intro nth_equalityI) auto
    then have "prefix xs ys"
      by (metis take_is_prefix)
    then show ?thesis ..
  next
    case False
    with agree have "take (length ys) xs = ys"
      by (intro nth_equalityI) auto
    then have "prefix ys xs"
      by (metis take_is_prefix)
    then show ?thesis ..
  qed
next
  assume "prefix xs ys \<or> prefix ys xs"
  then show "\<forall>i < min (length xs) (length ys). xs ! i = ys ! i"
    by (auto simp: prefix_def nth_append)
qed

text \<open>
  C4. \<open>__eq__\<close> returns, and its answer is whether the two element sequences agree at
  every position that both have: it is \<open>True\<close> exactly when one sequence is a prefix of
  the other, whatever the lengths, and \<open>False\<close> exactly when they differ at a common
  position.
\<close>

theorem eq_compares_common_positions:
  assumes "chain h (ll_first L) as" and "chain h (ll_first M) bs"
  shows "eq h L M = Some (\<forall>i < min (length as) (length bs). items_of h as ! i = items_of h bs ! i)
       \<and> (eq h L M = Some True
            \<longleftrightarrow> prefix (items_of h as) (items_of h bs) \<or> prefix (items_of h bs) (items_of h as))
       \<and> (eq h L M = Some False
            \<longleftrightarrow> (\<exists>i < min (length as) (length bs). items_of h as ! i \<noteq> items_of h bs ! i))"
proof -
  have r: "eq h L M = Some (\<forall>i < min (length as) (length bs). items_of h as ! i = items_of h bs ! i)"
    unfolding eq_def using eq_loop_chain [OF assms, of True] by simp
  have len: "length (items_of h as) = length as" "length (items_of h bs) = length bs"
    by (simp_all add: items_of_def)
  have p: "(\<forall>i < min (length as) (length bs). items_of h as ! i = items_of h bs ! i)
      \<longleftrightarrow> prefix (items_of h as) (items_of h bs) \<or> prefix (items_of h bs) (items_of h as)"
    using agree_on_common_iff_prefix [of "items_of h as" "items_of h bs"] by (simp only: len)
  have t: "eq h L M = Some True
      \<longleftrightarrow> prefix (items_of h as) (items_of h bs) \<or> prefix (items_of h bs) (items_of h as)"
    unfolding r p [symmetric] by simp
  have f: "eq h L M = Some False
      \<longleftrightarrow> (\<exists>i < min (length as) (length bs). items_of h as ! i \<noteq> items_of h bs ! i)"
    unfolding r by auto
  from r t f show ?thesis by (intro conjI)
qed

theorem eq_compares_common_positions_witness:
  "chain [\<lparr>item = 1::int, nxt = Some 1\<rparr>, \<lparr>item = 2, nxt = None\<rparr>,
          \<lparr>item = 1, nxt = Some 3\<rparr>, \<lparr>item = 2, nxt = Some 4\<rparr>, \<lparr>item = 3, nxt = None\<rparr>]
     (ll_first \<lparr>ll_first = Some 0, ll_length = 2\<rparr>) [0, 1]
   \<and> chain [\<lparr>item = 1::int, nxt = Some 1\<rparr>, \<lparr>item = 2, nxt = None\<rparr>,
          \<lparr>item = 1, nxt = Some 3\<rparr>, \<lparr>item = 2, nxt = Some 4\<rparr>, \<lparr>item = 3, nxt = None\<rparr>]
     (ll_first \<lparr>ll_first = Some 2, ll_length = 3\<rparr>) [2, 3, 4]
   \<and> eq [\<lparr>item = 1::int, nxt = Some 1\<rparr>, \<lparr>item = 2, nxt = None\<rparr>,
          \<lparr>item = 1, nxt = Some 3\<rparr>, \<lparr>item = 2, nxt = Some 4\<rparr>, \<lparr>item = 3, nxt = None\<rparr>]
       \<lparr>ll_first = Some 0, ll_length = 2\<rparr> \<lparr>ll_first = Some 2, ll_length = 3\<rparr> = Some True"
proof -
  let ?h = "[\<lparr>item = 1::int, nxt = Some 1\<rparr>, \<lparr>item = 2, nxt = None\<rparr>,
             \<lparr>item = 1, nxt = Some 3\<rparr>, \<lparr>item = 2, nxt = Some 4\<rparr>, \<lparr>item = 3, nxt = None\<rparr>]"
  let ?L = "\<lparr>ll_first = Some 0, ll_length = 2\<rparr>"
  let ?M = "\<lparr>ll_first = Some 2, ll_length = 3\<rparr>"
  have a: "chain ?h (ll_first ?L) [0, 1]" by simp
  have b: "chain ?h (ll_first ?M) [2, 3, 4]" by simp
  have "prefix (items_of ?h [0, 1]) (items_of ?h [2, 3, 4])"
    by (simp add: items_of_def)
  with eq_compares_common_positions [OF a b] have "eq ?h ?L ?M = Some True"
    by blast
  with a b show ?thesis by (intro conjI)
qed

section \<open>Splicing a node out\<close>

lemma item_update_nxt: "item ((h[p := (h ! p)\<lparr>nxt := v\<rparr>]) ! a) = item (h ! a)"
  by (cases "p < length h") (auto simp: nth_list_update list_update_beyond)

lemma items_of_update_nxt: "items_of (h[p := (h ! p)\<lparr>nxt := v\<rparr>]) as = items_of h as"
  by (simp add: items_of_def item_update_nxt)

lemma chain_splice:
  "chain h q (us @ p # a # post) \<Longrightarrow>
   chain (h[p := (h ! p)\<lparr>nxt := nxt (h ! a)\<rparr>]) q (us @ p # post)"
proof (induction us arbitrary: q)
  case Nil
  then have d: "distinct (p # a # post)"
    using chain_distinct by fastforce
  from Nil have q: "q = Some p" and p: "p < length h" and a: "nxt (h ! p) = Some a"
    and tl: "chain h (nxt (h ! a)) post"
    by (cases q; cases "nxt (h ! p)"; simp)+
  from tl d have "chain (h[p := (h ! p)\<lparr>nxt := nxt (h ! a)\<rparr>]) (nxt (h ! a)) post"
    by (intro chain_update_other) auto
  with q p show ?case by simp
next
  case (Cons u us)
  then have d: "distinct (u # us @ p # a # post)"
    using chain_distinct by fastforce
  from Cons.prems have q: "q = Some u" and u: "u < length h"
    and tl: "chain h (nxt (h ! u)) (us @ p # a # post)"
    by (cases q; simp)+
  from d have "u \<noteq> p" by auto
  with q u Cons.IH [OF tl] show ?case by simp
qed

lemma remove_loop_absent:
  "chain h (Some c) (c # bs) \<Longrightarrow> x \<notin> set (items_of h bs) \<Longrightarrow>
   remove_loop h self x (Some c) = Some (Inl ValueError, h, self)"
proof (induction bs arbitrary: c)
  case Nil
  then have "nxt (h ! c) = None" by (cases "nxt (h ! c)") auto
  then show ?case
    by (subst remove_loop.simps, simp, subst remove_loop.simps, simp)
next
  case (Cons b bs)
  then have n: "nxt (h ! c) = Some b" and tl: "chain h (Some b) (b # bs)"
    by (cases "nxt (h ! c)"; auto)+
  from Cons.prems(2) have nb: "item (h ! b) \<noteq> x" and rest: "x \<notin> set (items_of h bs)"
    by (auto simp: items_of_def)
  have "remove_loop h self x (Some c) = remove_loop h self x (Some b)"
    by (subst remove_loop.simps) (simp add: n nb)
  with Cons.IH [OF tl rest] show ?case by simp
qed

lemma remove_loop_found:
  "chain h (Some c) (c # pre @ a # post) \<Longrightarrow> x \<notin> set (items_of h pre) \<Longrightarrow> item (h ! a) = x \<Longrightarrow>
   remove_loop h self x (Some c) =
     Some (Inr (),
           h[last (c # pre) := (h ! last (c # pre))\<lparr>nxt := nxt (h ! a)\<rparr>],
           self\<lparr>ll_length := ll_length self - 1\<rparr>)"
proof (induction pre arbitrary: c)
  case Nil
  then have n: "nxt (h ! c) = Some a"
    by (cases "nxt (h ! c)") auto
  with Nil show ?case
    by (subst remove_loop.simps) simp
next
  case (Cons b pre)
  then have n: "nxt (h ! c) = Some b" and tl: "chain h (Some b) (b # pre @ a # post)"
    by (cases "nxt (h ! c)"; auto)+
  from Cons.prems(2) have nb: "item (h ! b) \<noteq> x" and rest: "x \<notin> set (items_of h pre)"
    by (auto simp: items_of_def)
  have "remove_loop h self x (Some c) = remove_loop h self x (Some b)"
    by (subst remove_loop.simps) (simp add: n nb)
  with Cons.IH [OF tl rest Cons.prems(3)] show ?case by simp
qed

lemma first_occurrence:
  "x \<in> set (items_of h as) \<Longrightarrow>
   \<exists>pre a post. as = pre @ a # post \<and> item (h ! a) = x \<and> x \<notin> set (items_of h pre)"
proof (induction as)
  case Nil
  then show ?case by (simp add: items_of_def)
next
  case (Cons b as)
  show ?case
  proof (cases "item (h ! b) = x")
    case True
    then have "b # as = [] @ b # as \<and> item (h ! b) = x \<and> x \<notin> set (items_of h [])"
      by (simp add: items_of_def)
    then show ?thesis by blast
  next
    case False
    with Cons.prems have "x \<in> set (items_of h as)"
      by (auto simp: items_of_def)
    from Cons.IH [OF this] obtain pre a post where
      "as = pre @ a # post" "item (h ! a) = x" "x \<notin> set (items_of h pre)"
      by blast
    with False have "b # as = (b # pre) @ a # post \<and> item (h ! a) = x
        \<and> x \<notin> set (items_of h (b # pre))"
      by (auto simp: items_of_def)
    then show ?thesis by blast
  qed
qed

lemma remove1_first_occurrence:
  "x \<notin> set ys \<Longrightarrow> remove1 x (ys @ x # zs) = ys @ zs"
  by (induction ys) auto


lemma remove_ll_absent:
  assumes "chain h (ll_first L) as" and "x \<notin> set (items_of h as)"
  shows "remove_ll h L x = Some (Inl ValueError, h, L)"
proof (cases as)
  case Nil
  with assms(1) have "ll_first L = None" by (cases "ll_first L") auto
  then show ?thesis by (simp add: remove_ll_def)
next
  case (Cons c bs)
  with assms(1) have f: "ll_first L = Some c" and ch: "chain h (Some c) (c # bs)"
    by (cases "ll_first L"; auto)+
  from assms(2) Cons have "item (h ! c) \<noteq> x" "x \<notin> set (items_of h bs)"
    by (auto simp: items_of_def)
  then show ?thesis
    using remove_loop_absent [OF ch, of x L] by (simp add: remove_ll_def f)
qed

lemma remove_ll_present:
  assumes "chain h (ll_first L) as" and "x \<in> set (items_of h as)"
  shows "\<exists>h' L' pre a post. remove_ll h L x = Some (Inr (), h', L')
           \<and> as = pre @ a # post \<and> item (h ! a) = x \<and> x \<notin> set (items_of h pre)
           \<and> chain h' (ll_first L') (pre @ post)
           \<and> items_of h' (pre @ post) = items_of h (pre @ post)
           \<and> length h' = length h
           \<and> ll_length L' = ll_length L - 1"
proof -
  from first_occurrence [OF assms(2)] obtain pre a post where
    as: "as = pre @ a # post" and a: "item (h ! a) = x" and pre: "x \<notin> set (items_of h pre)"
    by blast
  show ?thesis
  proof (cases pre)
    case Nil
    with assms(1) as have f: "ll_first L = Some a" and tl: "chain h (nxt (h ! a)) post"
      by (cases "ll_first L"; auto)+
    let ?L' = "L\<lparr>ll_first := nxt (h ! a), ll_length := ll_length L - 1\<rparr>"
    have r1: "remove_ll h L x = Some (Inr (), h, ?L')"
      by (simp add: remove_ll_def f a)
    have r2: "as = [] @ a # post" using as Nil by simp
    have r3: "x \<notin> set (items_of h [])" by (simp add: items_of_def)
    have r4: "chain h (ll_first ?L') ([] @ post)" using tl by simp
    have r5: "ll_length ?L' = ll_length L - 1" by simp
    show ?thesis
      by (rule exI [of _ h], rule exI [of _ ?L'], rule exI [of _ "[]"], rule exI [of _ a],
          rule exI [of _ post])
         (use r1 r2 a r3 r4 r5 in \<open>intro conjI refl\<close>)
  next
    case (Cons c pre')
    with assms(1) as have f: "ll_first L = Some c"
      and ch: "chain h (Some c) (c # pre' @ a # post)"
      by (cases "ll_first L"; auto)+
    from pre Cons have nc: "item (h ! c) \<noteq> x" and pre': "x \<notin> set (items_of h pre')"
      by (auto simp: items_of_def)
    define p where "p = last (c # pre')"
    define us where "us = butlast (c # pre')"
    have up: "c # pre' = us @ [p]"
      unfolding us_def p_def by (rule append_butlast_last_id [symmetric]) simp
    let ?h' = "h[p := (h ! p)\<lparr>nxt := nxt (h ! a)\<rparr>]"
    let ?L' = "L\<lparr>ll_length := ll_length L - 1\<rparr>"
    have "remove_ll h L x = remove_loop h L x (Some c)"
      by (simp add: remove_ll_def f nc)
    also have "\<dots> = Some (Inr (), ?h', ?L')"
      unfolding p_def by (rule remove_loop_found [OF ch pre' a])
    finally have r1: "remove_ll h L x = Some (Inr (), ?h', ?L')" .
    have "c # pre' @ a # post = (c # pre') @ a # post"
      by simp
    also have "\<dots> = us @ p # a # post"
      unfolding up by simp
    finally have "c # pre' @ a # post = us @ p # a # post" .
    with ch have "chain h (Some c) (us @ p # a # post)"
      by (simp only:)
    then have "chain ?h' (Some c) (us @ p # post)"
      by (rule chain_splice)
    moreover have "us @ p # post = pre @ post"
      unfolding Cons up by simp
    ultimately have r4: "chain ?h' (ll_first ?L') (pre @ post)"
      by (simp add: f)
    have r5: "items_of ?h' (pre @ post) = items_of h (pre @ post)"
      by (rule items_of_update_nxt)
    have r6: "length ?h' = length h" by simp
    have r7: "ll_length ?L' = ll_length L - 1" by simp
    show ?thesis
      by (rule exI [of _ ?h'], rule exI [of _ ?L'], rule exI [of _ pre], rule exI [of _ a],
          rule exI [of _ post])
         (use r1 as a pre r4 r5 r6 r7 in \<open>intro conjI\<close>)
  qed
qed

text \<open>
  C6. \<open>remove\<close> returns on every list. It raises ValueError exactly when no node holds
  the item, and then the heap and the list are the ones it was called with. Otherwise
  the first node holding the item leaves the chain, the other elements keep their order,
  and the length goes down by 1.
\<close>

theorem remove_first_match_or_value_error:
  assumes "chain h (ll_first L) as"
  shows "(x \<notin> set (items_of h as) \<longrightarrow> remove_ll h L x = Some (Inl ValueError, h, L))
       \<and> (x \<in> set (items_of h as) \<longrightarrow>
            (\<exists>h' L' pre a post. remove_ll h L x = Some (Inr (), h', L')
               \<and> as = pre @ a # post \<and> item (h ! a) = x \<and> x \<notin> set (items_of h pre)
               \<and> chain h' (ll_first L') (pre @ post)
               \<and> to_list h' L' = Some (remove1 x (items_of h as))
               \<and> ll_length L' = ll_length L - 1))
       \<and> ((\<exists>h' L'. remove_ll h L x = Some (Inl ValueError, h', L')) \<longleftrightarrow> x \<notin> set (items_of h as))"
proof -
  have absent: "x \<notin> set (items_of h as) \<longrightarrow> remove_ll h L x = Some (Inl ValueError, h, L)"
    using remove_ll_absent [OF assms] by blast
  have present: "\<exists>h' L' pre a post. remove_ll h L x = Some (Inr (), h', L')
               \<and> as = pre @ a # post \<and> item (h ! a) = x \<and> x \<notin> set (items_of h pre)
               \<and> chain h' (ll_first L') (pre @ post)
               \<and> to_list h' L' = Some (remove1 x (items_of h as))
               \<and> ll_length L' = ll_length L - 1"
    if x: "x \<in> set (items_of h as)"
  proof -
    from remove_ll_present [OF assms x] obtain h' L' pre a post where
      1: "remove_ll h L x = Some (Inr (), h', L')"
      and 2: "as = pre @ a # post" and 3: "item (h ! a) = x" and 4: "x \<notin> set (items_of h pre)"
      and 5: "chain h' (ll_first L') (pre @ post)"
      and 6: "items_of h' (pre @ post) = items_of h (pre @ post)"
      and 7: "ll_length L' = ll_length L - 1"
      by (elim exE conjE) (rule that)
    have "items_of h as = items_of h pre @ x # items_of h post"
      using 2 3 by (simp add: items_of_def)
    then have "remove1 x (items_of h as) = items_of h pre @ items_of h post"
      using 4 by (simp add: remove1_first_occurrence)
    also have "\<dots> = items_of h' (pre @ post)"
      unfolding 6 by (simp add: items_of_def)
    finally have 8: "to_list h' L' = Some (remove1 x (items_of h as))"
      using to_list_chain [OF 5] by simp
    show ?thesis
      by (rule exI [of _ h'], rule exI [of _ L'], rule exI [of _ pre], rule exI [of _ a],
          rule exI [of _ post])
         (use 1 2 3 4 5 8 7 in \<open>intro conjI\<close>)
  qed
  have iff: "(\<exists>h' L'. remove_ll h L x = Some (Inl ValueError, h', L')) \<longleftrightarrow> x \<notin> set (items_of h as)"
  proof
    assume "\<exists>h' L'. remove_ll h L x = Some (Inl ValueError, h', L')"
    then show "x \<notin> set (items_of h as)"
      using present by fastforce
  next
    assume "x \<notin> set (items_of h as)"
    then show "\<exists>h' L'. remove_ll h L x = Some (Inl ValueError, h', L')"
      using absent by blast
  qed
  from absent present iff show ?thesis by blast
qed

theorem remove_first_match_or_value_error_witness:
  "chain [\<lparr>item = 1::int, nxt = Some 1\<rparr>, \<lparr>item = 2, nxt = Some 2\<rparr>, \<lparr>item = 3, nxt = None\<rparr>]
     (ll_first \<lparr>ll_first = Some 0, ll_length = 3\<rparr>) [0, 1, 2]
   \<and> remove_ll [\<lparr>item = 1::int, nxt = Some 1\<rparr>, \<lparr>item = 2, nxt = Some 2\<rparr>, \<lparr>item = 3, nxt = None\<rparr>]
       \<lparr>ll_first = Some 0, ll_length = 3\<rparr> 9
     = Some (Inl ValueError,
             [\<lparr>item = 1::int, nxt = Some 1\<rparr>, \<lparr>item = 2, nxt = Some 2\<rparr>, \<lparr>item = 3, nxt = None\<rparr>],
             \<lparr>ll_first = Some 0, ll_length = 3\<rparr>)
   \<and> (\<exists>h' L'. remove_ll [\<lparr>item = 1::int, nxt = Some 1\<rparr>, \<lparr>item = 2, nxt = Some 2\<rparr>,
                          \<lparr>item = 3, nxt = None\<rparr>]
                  \<lparr>ll_first = Some 0, ll_length = 3\<rparr> 2 = Some (Inr (), h', L')
        \<and> to_list h' L' = Some [1, 3] \<and> ll_length L' = 2)"
proof -
  let ?h = "[\<lparr>item = 1::int, nxt = Some 1\<rparr>, \<lparr>item = 2, nxt = Some 2\<rparr>, \<lparr>item = 3, nxt = None\<rparr>]"
  let ?L = "\<lparr>ll_first = Some 0, ll_length = 3\<rparr>"
  have a: "chain ?h (ll_first ?L) [0, 1, 2]" by simp
  have "remove_ll ?h ?L 9 = Some (Inl ValueError, ?h, ?L)"
    using remove_first_match_or_value_error [OF a, of 9] by (simp add: items_of_def)
  moreover have "\<exists>h' L'. remove_ll ?h ?L 2 = Some (Inr (), h', L')
        \<and> to_list h' L' = Some [1, 3] \<and> ll_length L' = 2"
    using remove_first_match_or_value_error [OF a, of 2] by (simp add: items_of_def) blast
  ultimately show ?thesis using a by blast
qed

section \<open>Sorting\<close>

lemma init_items_chain:
  "\<exists>h' l' bs. init h (Some xs) None = Some (h', l')
      \<and> chain h' (ll_first l') bs
      \<and> items_of h' bs = xs
      \<and> ll_length l' = int (length xs)"
proof (cases "xs = []")
  case True
  then have "init h (Some xs) None = Some (h, \<lparr>ll_first = None, ll_length = 0\<rparr>)
      \<and> chain h (ll_first \<lparr>ll_first = None, ll_length = 0\<rparr>) []
      \<and> items_of h [] = xs
      \<and> ll_length \<lparr>ll_first = None, ll_length = 0\<rparr> = int (length xs)"
    by (simp add: init_def items_of_def)
  then show ?thesis by blast
next
  case False
  let ?e = "\<lparr>ll_first = None, ll_length = 0\<rparr>"
  have "chain h (ll_first ?e) []" by simp
  from init_loop_chain [OF this, of xs] obtain h' l' bs where
    1: "init_loop h ?e xs = Some (h', l')"
    and 2: "chain h' (ll_first l') ([] @ bs)"
    and 3: "items_of h' ([] @ bs) = items_of h [] @ xs"
    and 4: "ll_length l' = ll_length ?e + int (length xs)"
    by (elim exE conjE) (rule that)
  have "init h (Some xs) None = Some (h', l')"
    using False 1 by (simp add: init_def)
  moreover have "chain h' (ll_first l') bs" using 2 by simp
  moreover have "items_of h' bs = xs" using 3 by (simp add: items_of_def)
  moreover have "ll_length l' = int (length xs)" using 4 by simp
  ultimately show ?thesis by blast
qed

lemma list_sort_sorted:
  "mset (list_sort r xs) = mset xs"
  "r \<Longrightarrow> sorted (rev (list_sort r xs))"
  "\<not> r \<Longrightarrow> sorted (list_sort r xs)"
  by (simp_all add: list_sort_def)

text \<open>
  C7. \<open>sort\<close> returns on every list of elements of a linear order. Afterwards
  \<open>to_list\<close> yields what Python's sort makes of the old elements: a rearrangement of
  them in ascending order, or in descending order when \<open>reverse\<close> is passed. The cached
  length is the one before the call, and so is the number of elements.
\<close>

theorem sort_ll_orders_elements:
  assumes "chain h (ll_first L) as"
  shows "\<exists>h' L' ys. sort_ll h L r = Some (h', L')
           \<and> to_list h' L' = Some ys
           \<and> ys = list_sort r (items_of h as)
           \<and> mset ys = mset (items_of h as)
           \<and> (if r then sorted (rev ys) else sorted ys)
           \<and> len L' = len L
           \<and> length ys = length as"
proof -
  let ?ys = "list_sort r (items_of h as)"
  have tl: "to_list h L = Some (items_of h as)"
    using assms by (rule to_list_chain)
  from init_items_chain [of h ?ys] obtain h' l' bs where
    1: "init h (Some ?ys) None = Some (h', l')"
    and 2: "chain h' (ll_first l') bs"
    and 3: "items_of h' bs = ?ys"
    by (elim exE conjE) (rule that)
  let ?L' = "L\<lparr>ll_first := ll_first l'\<rparr>"
  have r1: "sort_ll h L r = Some (h', ?L')"
    by (simp add: sort_ll_def tl 1)
  have "chain h' (ll_first ?L') bs" using 2 by simp
  then have r2: "to_list h' ?L' = Some ?ys"
    using to_list_chain 3 by fastforce
  have r4: "mset ?ys = mset (items_of h as)"
    by (rule list_sort_sorted)
  have r5: "if r then sorted (rev ?ys) else sorted ?ys"
    by (simp add: list_sort_sorted)
  have r6: "len ?L' = len L"
    by (simp add: len_def)
  have "length ?ys = length (items_of h as)"
    using r4 by (rule mset_eq_length)
  then have r7: "length ?ys = length as"
    by (simp add: items_of_def)
  show ?thesis
    by (rule exI [of _ h'], rule exI [of _ ?L'], rule exI [of _ ?ys])
       (use r1 r2 r4 r5 r6 r7 in \<open>intro conjI refl\<close>)
qed

theorem sort_ll_orders_elements_witness:
  "init [] (Some [3, 1, 2::int]) None
     = Some ([\<lparr>item = 3, nxt = Some 1\<rparr>, \<lparr>item = 1, nxt = Some 2\<rparr>, \<lparr>item = 2, nxt = None\<rparr>],
             \<lparr>ll_first = Some 0, ll_length = 3\<rparr>)
   \<and> chain [\<lparr>item = 3::int, nxt = Some 1\<rparr>, \<lparr>item = 1, nxt = Some 2\<rparr>, \<lparr>item = 2, nxt = None\<rparr>]
       (ll_first \<lparr>ll_first = Some 0, ll_length = 3\<rparr>) [0, 1, 2]
   \<and> (\<exists>h' L'. sort_ll [\<lparr>item = 3::int, nxt = Some 1\<rparr>, \<lparr>item = 1, nxt = Some 2\<rparr>,
                        \<lparr>item = 2, nxt = None\<rparr>]
                  \<lparr>ll_first = Some 0, ll_length = 3\<rparr> False = Some (h', L')
        \<and> to_list h' L' = Some [1, 2, 3] \<and> len L' = 3)
   \<and> (\<exists>h' L'. sort_ll [\<lparr>item = 3::int, nxt = Some 1\<rparr>, \<lparr>item = 1, nxt = Some 2\<rparr>,
                        \<lparr>item = 2, nxt = None\<rparr>]
                  \<lparr>ll_first = Some 0, ll_length = 3\<rparr> True = Some (h', L')
        \<and> to_list h' L' = Some [3, 2, 1] \<and> len L' = 3)"
proof -
  let ?h = "[\<lparr>item = 3::int, nxt = Some 1\<rparr>, \<lparr>item = 1, nxt = Some 2\<rparr>, \<lparr>item = 2, nxt = None\<rparr>]"
  let ?L = "\<lparr>ll_first = Some 0, ll_length = 3\<rparr>"
  have i: "init [] (Some [3, 1, 2::int]) None = Some (?h, ?L)"
    by (simp add: init_def append_ll_def Let_def append_loop.simps)
  have a: "chain ?h (ll_first ?L) [0, 1, 2]" by simp
  have up: "\<exists>h' L'. sort_ll ?h ?L False = Some (h', L')
        \<and> to_list h' L' = Some [1, 2, 3] \<and> len L' = 3"
    using sort_ll_orders_elements [OF a, of False]
    by (auto simp add: items_of_def list_sort_def len_def)
  have down: "\<exists>h' L'. sort_ll ?h ?L True = Some (h', L')
        \<and> to_list h' L' = Some [3, 2, 1] \<and> len L' = 3"
    using sort_ll_orders_elements [OF a, of True]
    by (auto simp add: items_of_def list_sort_def len_def)
  from i a up down show ?thesis by (intro conjI)
qed

section \<open>Reversal in place\<close>

lemma invert_loop_chain:
  assumes "chain h p as" and "chain h q bs" and "set as \<inter> set bs = {}"
  shows "\<exists>h' r. invert_loop h p q = Some (h', r)
           \<and> chain h' r (rev as @ bs)
           \<and> length h' = length h
           \<and> (\<forall>a. item (h' ! a) = item (h ! a))"
  using assms
proof (induction as arbitrary: h p q bs)
  case Nil
  then have "p = None" by (cases p) auto
  then have "invert_loop h p q = Some (h, q)"
    by (subst invert_loop.simps) simp
  with Nil show ?case by simp
next
  case (Cons a as)
  from Cons.prems(1) have p: "p = Some a" and tl: "chain h (nxt (h ! a)) as"
    and a: "a < length h"
    by (cases p; simp)+
  from Cons.prems(1) have d: "distinct (a # as)"
    by (rule chain_distinct)
  let ?h1 = "h[a := (h ! a)\<lparr>nxt := q\<rparr>]"
  have c1: "chain ?h1 (nxt (h ! a)) as"
    using tl d by (intro chain_update_other) auto
  have "chain ?h1 q bs"
    using Cons.prems(2,3) by (intro chain_update_other) auto
  then have c2: "chain ?h1 (Some a) (a # bs)"
    using a by simp
  have dj: "set as \<inter> set (a # bs) = {}"
    using d Cons.prems(3) by auto
  from Cons.IH [OF c1 c2 dj] obtain h' r where
    1: "invert_loop ?h1 (nxt (h ! a)) (Some a) = Some (h', r)"
    and 2: "chain h' r (rev as @ a # bs)"
    and 3: "length h' = length ?h1"
    and 4: "\<forall>b. item (h' ! b) = item (?h1 ! b)"
    by (elim exE conjE) (rule that)
  have r1: "invert_loop h p q = Some (h', r)"
    by (subst invert_loop.simps) (simp add: p Let_def 1)
  have r2: "chain h' r (rev (a # as) @ bs)"
    using 2 by simp
  have r3: "length h' = length h"
    using 3 by simp
  have r4: "\<forall>b. item (h' ! b) = item (h ! b)"
    using 4 by (simp add: item_update_nxt)
  show ?case
    by (rule exI [of _ h'], rule exI [of _ r]) (use r1 r2 r3 r4 in \<open>intro conjI\<close>)
qed

lemma invert_chain:
  assumes "chain h (ll_first L) as"
  shows "\<exists>h' L'. invert h L = Some (h', L')
           \<and> chain h' (ll_first L') (rev as)
           \<and> items_of h' (rev as) = rev (items_of h as)
           \<and> length h' = length h
           \<and> ll_length L' = ll_length L"
proof -
  have "chain h None []" "set as \<inter> set [] = {}" by simp_all
  from invert_loop_chain [OF assms this] obtain h' r where
    1: "invert_loop h (ll_first L) None = Some (h', r)"
    and 2: "chain h' r (rev as @ [])"
    and 3: "length h' = length h"
    and 4: "\<forall>a. item (h' ! a) = item (h ! a)"
    by (elim exE conjE) (rule that)
  let ?L' = "L\<lparr>ll_first := r\<rparr>"
  have r1: "invert h L = Some (h', ?L')"
    by (simp add: invert_def 1)
  have r2: "chain h' (ll_first ?L') (rev as)"
    using 2 by simp
  have r3: "items_of h' (rev as) = rev (items_of h as)"
    using 4 by (simp add: items_of_def rev_map)
  have r5: "ll_length ?L' = ll_length L" by simp
  show ?thesis
    by (rule exI [of _ h'], rule exI [of _ ?L']) (use r1 r2 r3 3 r5 in \<open>intro conjI\<close>)
qed


text \<open>
  C8. \<open>invert\<close> returns on every list. Afterwards the chain is the old chain in reverse
  order, made of the same nodes, so the elements are reversed; the heap has as many nodes
  as before, and the cached length is the one before the call. A second \<open>invert\<close> gives
  back the original chain and the original order of the elements.
\<close>

theorem invert_reverses_in_place:
  assumes "chain h (ll_first L) as"
  shows "\<exists>h' L'. invert h L = Some (h', L')
           \<and> to_list h' L' = Some (rev (items_of h as))
           \<and> chain h' (ll_first L') (rev as)
           \<and> length h' = length h
           \<and> len L' = len L
           \<and> (\<exists>h'' L''. invert h' L' = Some (h'', L'')
                 \<and> to_list h'' L'' = Some (items_of h as)
                 \<and> chain h'' (ll_first L'') as
                 \<and> length h'' = length h
                 \<and> len L'' = len L)"
proof -
  from invert_chain [OF assms] obtain h' L' where
    1: "invert h L = Some (h', L')"
    and 2: "chain h' (ll_first L') (rev as)"
    and 3: "items_of h' (rev as) = rev (items_of h as)"
    and 4: "length h' = length h"
    and 5: "ll_length L' = ll_length L"
    by (elim exE conjE) (rule that)
  from invert_chain [OF 2] obtain h'' L'' where
    a: "invert h' L' = Some (h'', L'')"
    and b: "chain h'' (ll_first L'') (rev (rev as))"
    and c: "items_of h'' (rev (rev as)) = rev (items_of h' (rev as))"
    and d: "length h'' = length h'"
    and e: "ll_length L'' = ll_length L'"
    by (elim exE conjE) (rule that)
  have r2: "to_list h' L' = Some (rev (items_of h as))"
    using to_list_chain [OF 2] 3 by simp
  have b': "chain h'' (ll_first L'') as"
    using b by simp
  have "items_of h'' as = items_of h as"
    using c 3 by simp
  then have s2: "to_list h'' L'' = Some (items_of h as)"
    using to_list_chain [OF b'] by simp
  have s4: "length h'' = length h" using d 4 by simp
  have s5: "len L'' = len L" using e 5 by (simp add: len_def)
  have r5: "len L' = len L" using 5 by (simp add: len_def)
  have twice: "\<exists>h'' L''. invert h' L' = Some (h'', L'')
                 \<and> to_list h'' L'' = Some (items_of h as)
                 \<and> chain h'' (ll_first L'') as
                 \<and> length h'' = length h
                 \<and> len L'' = len L"
    by (rule exI [of _ h''], rule exI [of _ L'']) (use a s2 b' s4 s5 in \<open>intro conjI\<close>)
  show ?thesis
    by (rule exI [of _ h'], rule exI [of _ L']) (use 1 r2 2 4 r5 twice in \<open>intro conjI\<close>)
qed

theorem invert_reverses_in_place_witness:
  "chain [\<lparr>item = 1::int, nxt = Some 1\<rparr>, \<lparr>item = 2, nxt = Some 2\<rparr>, \<lparr>item = 3, nxt = None\<rparr>]
     (ll_first \<lparr>ll_first = Some 0, ll_length = 3\<rparr>) [0, 1, 2]
   \<and> (\<exists>h' L'. invert [\<lparr>item = 1::int, nxt = Some 1\<rparr>, \<lparr>item = 2, nxt = Some 2\<rparr>,
                       \<lparr>item = 3, nxt = None\<rparr>]
                  \<lparr>ll_first = Some 0, ll_length = 3\<rparr> = Some (h', L')
        \<and> to_list h' L' = Some [3, 2, 1]
        \<and> length h' = 3
        \<and> len L' = 3
        \<and> (\<exists>h'' L''. invert h' L' = Some (h'', L'') \<and> to_list h'' L'' = Some [1, 2, 3]))"
proof -
  let ?h = "[\<lparr>item = 1::int, nxt = Some 1\<rparr>, \<lparr>item = 2, nxt = Some 2\<rparr>, \<lparr>item = 3, nxt = None\<rparr>]"
  let ?L = "\<lparr>ll_first = Some 0, ll_length = 3\<rparr>"
  have a: "chain ?h (ll_first ?L) [0, 1, 2]" by simp
  from invert_reverses_in_place [OF a] obtain h' L' h'' L'' where
    1: "invert ?h ?L = Some (h', L')"
    and 2: "to_list h' L' = Some (rev (items_of ?h [0, 1, 2]))"
    and 3: "length h' = length ?h"
    and 4: "len L' = len ?L"
    and 5: "invert h' L' = Some (h'', L'')"
    and 6: "to_list h'' L'' = Some (items_of ?h [0, 1, 2])"
    by (elim exE conjE) (rule that)
  have r2: "to_list h' L' = Some [3, 2, 1]"
    using 2 by (simp add: items_of_def)
  have r3: "length h' = 3" using 3 by simp
  have r4: "len L' = 3" using 4 by (simp add: len_def)
  have r6: "to_list h'' L'' = Some [1, 2, 3]"
    using 6 by (simp add: items_of_def)
  have twice: "\<exists>h'' L''. invert h' L' = Some (h'', L'') \<and> to_list h'' L'' = Some [1, 2, 3]"
    using 5 r6 by blast
  have "\<exists>h' L'. invert ?h ?L = Some (h', L')
        \<and> to_list h' L' = Some [3, 2, 1]
        \<and> length h' = 3
        \<and> len L' = 3
        \<and> (\<exists>h'' L''. invert h' L' = Some (h'', L'') \<and> to_list h'' L'' = Some [1, 2, 3])"
    by (rule exI [of _ h'], rule exI [of _ L']) (use 1 r2 r3 r4 twice in \<open>intro conjI\<close>)
  with a show ?thesis by (intro conjI)
qed

section \<open>The operations that keep the cached length right\<close>

text \<open>
  Construction from a sequence, \<open>append\<close>, \<open>__setitem__\<close>, \<open>insert\<close>, \<open>pop\<close>,
  \<open>remove\<close>, \<open>invert\<close> and \<open>sort\<close> return on every list whose cached length is
  the number of its nodes, and hand back such a list, also when they raise.
  (\<open>__getitem__\<close> writes nothing.)
\<close>

lemma length_okI: "chain h (ll_first l) as \<Longrightarrow> ll_length l = int (length as) \<Longrightarrow> length_ok h l"
  unfolding length_ok_def by blast

lemma length_ok_init:
  "\<exists>h' l. init h (Some xs) None = Some (h', l) \<and> length_ok h' l \<and> len l = int (length xs)"
proof -
  from init_items_chain [of h xs] obtain h' l bs where
    1: "init h (Some xs) None = Some (h', l)"
    and 2: "chain h' (ll_first l) bs"
    and 3: "items_of h' bs = xs"
    and 4: "ll_length l = int (length xs)"
    by (elim exE conjE) (rule that)
  from 3 have "length xs = length bs"
    by (auto simp: items_of_def)
  with 2 4 have "length_ok h' l"
    by (intro length_okI) simp_all
  with 1 4 show ?thesis
    by (simp add: len_def)
qed

lemma length_ok_append:
  assumes "length_ok h l"
  shows "\<exists>h' l'. append_ll h l x = Some (h', l') \<and> length_ok h' l' \<and> len l' = len l + 1"
proof -
  from assms obtain as where ch: "chain h (ll_first l) as" and n: "ll_length l = int (length as)"
    unfolding length_ok_def by blast
  from append_ll_chain [OF ch, of x] obtain h' l' where
    1: "append_ll h l x = Some (h', l')"
    and 2: "chain h' (ll_first l') (as @ [length h])"
    and 3: "ll_length l' = ll_length l + 1"
    by (elim exE conjE) (rule that)
  from 2 have "length_ok h' l'"
    by (rule length_okI) (simp add: 3 n)
  with 1 3 show ?thesis
    by (simp add: len_def)
qed

lemma length_ok_remove:
  assumes "length_ok h l"
  shows "\<exists>r h' l'. remove_ll h l x = Some (r, h', l') \<and> length_ok h' l'"
proof -
  from assms obtain as where ch: "chain h (ll_first l) as" and n: "ll_length l = int (length as)"
    unfolding length_ok_def by blast
  show ?thesis
  proof (cases "x \<in> set (items_of h as)")
    case False
    with remove_ll_absent [OF ch] assms show ?thesis by blast
  next
    case True
    from remove_ll_present [OF ch True] obtain h' l' pre a post where
      1: "remove_ll h l x = Some (Inr (), h', l')"
      and 2: "as = pre @ a # post"
      and 3: "chain h' (ll_first l') (pre @ post)"
      and 4: "ll_length l' = ll_length l - 1"
      by (elim exE conjE) (rule that)
    from 3 have "length_ok h' l'"
      by (rule length_okI) (simp add: 4 n 2)
    with 1 show ?thesis by blast
  qed
qed

lemma length_ok_invert:
  assumes "length_ok h l"
  shows "\<exists>h' l'. invert h l = Some (h', l') \<and> length_ok h' l'"
proof -
  from assms obtain as where ch: "chain h (ll_first l) as" and n: "ll_length l = int (length as)"
    unfolding length_ok_def by blast
  from invert_chain [OF ch] obtain h' l' where
    1: "invert h l = Some (h', l')"
    and 2: "chain h' (ll_first l') (rev as)"
    and 3: "ll_length l' = ll_length l"
    by (elim exE conjE) (rule that)
  from 2 have "length_ok h' l'"
    by (rule length_okI) (simp add: 3 n)
  with 1 show ?thesis by blast
qed

lemma length_ok_sort:
  assumes "length_ok h l"
  shows "\<exists>h' l'. sort_ll h l r = Some (h', l') \<and> length_ok h' l'"
proof -
  from assms obtain as where ch: "chain h (ll_first l) as" and n: "ll_length l = int (length as)"
    unfolding length_ok_def by blast
  let ?ys = "list_sort r (items_of h as)"
  have tl: "to_list h l = Some (items_of h as)"
    using ch by (rule to_list_chain)
  from init_items_chain [of h ?ys] obtain h' c bs where
    1: "init h (Some ?ys) None = Some (h', c)"
    and 2: "chain h' (ll_first c) bs"
    and 3: "items_of h' bs = ?ys"
    by (elim exE conjE) (rule that)
  let ?l' = "l\<lparr>ll_first := ll_first c\<rparr>"
  have r1: "sort_ll h l r = Some (h', ?l')"
    by (simp add: sort_ll_def tl 1)
  have "length (items_of h' bs) = length ?ys"
    by (simp only: 3)
  then have "length bs = length ?ys"
    by (simp add: items_of_def)
  also have "\<dots> = length (items_of h as)"
    by (rule mset_eq_length) (rule list_sort_sorted)
  finally have "length bs = length as"
    by (simp add: items_of_def)
  with 2 n have "length_ok h' ?l'"
    by (intro length_okI [of _ _ bs]) simp_all
  with r1 show ?thesis by blast
qed

lemma nxt_update_item: "nxt ((h[c := (h ! c)\<lparr>item := x\<rparr>]) ! a) = nxt (h ! a)"
  by (cases "c < length h") (auto simp: nth_list_update list_update_beyond)

lemma chain_update_item: "chain h p as \<Longrightarrow> chain (h[c := (h ! c)\<lparr>item := x\<rparr>]) p as"
  by (induction h p as rule: chain.induct) (auto simp: nxt_update_item)

lemma setitem_loop_chain:
  "chain h p as \<Longrightarrow>
   \<exists>r. setitem_loop h i x p k = Some (if r = None then h else h[the r := (h ! the r)\<lparr>item := x\<rparr>], r)"
proof (induction as arbitrary: p k)
  case Nil
  then have "p = None" by (cases p) auto
  then have "setitem_loop h i x p k = Some (h, None)"
    by (subst setitem_loop.simps) simp
  then show ?case by (intro exI [of _ None]) simp
next
  case (Cons a as)
  from Cons.prems have p: "p = Some a" and tl: "chain h (nxt (h ! a)) as"
    by (cases p; simp)+
  show ?case
  proof (cases "k = i")
    case True
    then have "setitem_loop h i x p k = Some (h[a := (h ! a)\<lparr>item := x\<rparr>], Some a)"
      by (subst setitem_loop.simps) (simp add: p)
    then show ?thesis by (intro exI [of _ "Some a"]) simp
  next
    case False
    then have "setitem_loop h i x p k = setitem_loop h i x (nxt (h ! a)) (k + 1)"
      by (subst setitem_loop.simps) (simp add: p)
    with Cons.IH [OF tl, of "k + 1"] show ?thesis by simp
  qed
qed

lemma length_ok_setitem:
  assumes "length_ok h l"
  shows "\<exists>r h' l'. setitem h l i x = Some (r, h', l') \<and> length_ok h' l'"
proof -
  from assms obtain as where ch: "chain h (ll_first l) as" and n: "ll_length l = int (length as)"
    unfolding length_ok_def by blast
  define j where "j = (if i < 0 then ll_length l + i else i)"
  from setitem_loop_chain [OF ch, of j x 0] obtain r where
    loop: "setitem_loop h j x (ll_first l) 0
             = Some (if r = None then h else h[the r := (h ! the r)\<lparr>item := x\<rparr>], r)"
    by blast
  show ?thesis
  proof (cases r)
    case None
    with loop have "setitem h l i x = Some (Inl IndexError, h, l)"
      by (simp add: setitem_def Let_def j_def)
    with assms show ?thesis by blast
  next
    case (Some c)
    let ?h' = "h[c := (h ! c)\<lparr>item := x\<rparr>]"
    from Some loop have "setitem h l i x = Some (Inr (), ?h', l)"
      by (simp add: setitem_def Let_def j_def)
    moreover have "length_ok ?h' l"
      using chain_update_item [OF ch] n by (rule length_okI)
    ultimately show ?thesis by blast
  qed
qed


lemma chain_insert_after:
  "chain h q (us @ c # post) \<Longrightarrow>
   chain ((h @ [\<lparr>item = x, nxt = nxt (h ! c)\<rparr>])[c := (h ! c)\<lparr>nxt := Some (length h)\<rparr>]) q
     (us @ c # length h # post)"
proof (induction us arbitrary: q)
  case Nil
  then have d: "distinct (c # post)"
    using chain_distinct by fastforce
  from Nil have q: "q = Some c" and c: "c < length h" and tl: "chain h (nxt (h ! c)) post"
    by (cases q; simp)+
  let ?h1 = "h @ [\<lparr>item = x, nxt = nxt (h ! c)\<rparr>]"
  let ?h' = "?h1[c := (h ! c)\<lparr>nxt := Some (length h)\<rparr>]"
  have "chain ?h1 (nxt (h ! c)) post"
    using tl by (rule chain_alloc)
  then have "chain ?h' (nxt (h ! c)) post"
    using d by (intro chain_update_other) auto
  moreover have "?h' ! c = (h ! c)\<lparr>nxt := Some (length h)\<rparr>"
    using c by simp
  moreover have "?h' ! length h = \<lparr>item = x, nxt = nxt (h ! c)\<rparr>"
    using c by simp
  ultimately show ?case
    using q c by simp
next
  case (Cons u us)
  then have d: "distinct (u # us @ c # post)"
    using chain_distinct by fastforce
  from Cons.prems have q: "q = Some u" and u: "u < length h"
    and tl: "chain h (nxt (h ! u)) (us @ c # post)"
    by (cases q; simp)+
  from d have "u \<noteq> c" by auto
  with u have "((h @ [\<lparr>item = x, nxt = nxt (h ! c)\<rparr>])[c := (h ! c)\<lparr>nxt := Some (length h)\<rparr>]) ! u = h ! u"
    by (simp add: nth_append)
  with q u Cons.IH [OF tl] show ?case by simp
qed

lemma insert_loop_chain:
  "chain h p as \<Longrightarrow>
   \<exists>r. insert_loop h i p k = Some r \<and> (case r of None \<Rightarrow> True | Some c \<Rightarrow> c \<in> set as)"
proof (induction as arbitrary: p k)
  case Nil
  then have "p = None" by (cases p) auto
  then have "insert_loop h i p k = Some None"
    by (subst insert_loop.simps) simp
  then show ?case by simp
next
  case (Cons a as)
  from Cons.prems have p: "p = Some a" and tl: "chain h (nxt (h ! a)) as"
    by (cases p; simp)+
  show ?case
  proof (cases "k = i - 1")
    case True
    then have "insert_loop h i p k = Some (Some a)"
      by (subst insert_loop.simps) (simp add: p)
    then show ?thesis by simp
  next
    case False
    then have "insert_loop h i p k = insert_loop h i (nxt (h ! a)) (k + 1)"
      by (subst insert_loop.simps) (simp add: p)
    with Cons.IH [OF tl, of "k + 1"] show ?thesis
      by (auto split: option.splits)
  qed
qed

lemma length_ok_insert:
  assumes "length_ok h l"
  shows "\<exists>r h' l'. insert_ll h l i x = Some (r, h', l') \<and> length_ok h' l'"
proof -
  from assms obtain as where ch: "chain h (ll_first l) as" and n: "ll_length l = int (length as)"
    unfolding length_ok_def by blast
  define j where "j = (if i < 0 then ll_length l + i else i)"
  show ?thesis
  proof (cases "j = 0")
    case True
    let ?h' = "h @ [\<lparr>item = x, nxt = ll_first l\<rparr>]"
    let ?l' = "l\<lparr>ll_first := Some (length h), ll_length := ll_length l + 1\<rparr>"
    have r: "insert_ll h l i x = Some (Inr (), ?h', ?l')"
      using True by (simp add: insert_ll_def Let_def j_def)
    have "chain ?h' (ll_first l) as"
      using ch by (rule chain_alloc)
    then have "chain ?h' (ll_first ?l') (length h # as)"
      by simp
    then have "length_ok ?h' ?l'"
      by (rule length_okI) (simp add: n)
    with r show ?thesis by blast
  next
    case False
    from insert_loop_chain [OF ch, of j 0] obtain r where
      loop: "insert_loop h j (ll_first l) 0 = Some r"
      and r: "case r of None \<Rightarrow> True | Some c \<Rightarrow> c \<in> set as"
      by blast
    show ?thesis
    proof (cases r)
      case None
      with loop False have "insert_ll h l i x = Some (Inl IndexError, h, l)"
        by (simp add: insert_ll_def Let_def j_def)
      with assms show ?thesis by blast
    next
      case (Some c)
      let ?h' = "(h @ [\<lparr>item = x, nxt = nxt (h ! c)\<rparr>])[c := (h ! c)\<lparr>nxt := Some (length h)\<rparr>]"
      let ?l' = "l\<lparr>ll_length := ll_length l + 1\<rparr>"
      from Some loop False have res: "insert_ll h l i x = Some (Inr (), ?h', ?l')"
        by (simp add: insert_ll_def Let_def j_def)
      from Some r obtain us post where as: "as = us @ c # post"
        by (auto simp: in_set_conv_decomp)
      from ch have "chain ?h' (ll_first l) (us @ c # length h # post)"
        unfolding as by (rule chain_insert_after)
      then have "chain ?h' (ll_first ?l') (us @ c # length h # post)"
        by simp
      then have "length_ok ?h' ?l'"
        by (rule length_okI) (simp add: n as)
      with res show ?thesis by blast
    qed
  qed
qed

lemma pop_loop_keeps:
  assumes "chain h (ll_first l) (us @ as)" and "chain h p as"
    and "ll_length l = int (length (us @ as))"
  shows "\<exists>r h' l'. pop_loop h l i p k = Some (r, h', l') \<and> length_ok h' l'"
  using assms
proof (induction as arbitrary: us p k)
  case Nil
  then have "p = None" by (cases p) auto
  then have "pop_loop h l i p k = Some (Inl IndexError, h, l)"
    by (subst pop_loop.simps) simp
  moreover have "length_ok h l"
    using Nil.prems(1,3) by (rule length_okI)
  ultimately show ?case by blast
next
  case (Cons a as)
  from Cons.prems(2) have p: "p = Some a" and tl: "chain h (nxt (h ! a)) as"
    by (cases p; simp)+
  have ok: "length_ok h l"
    using Cons.prems(1,3) by (rule length_okI)
  show ?case
  proof (cases "k = i - 1")
    case False
    then have "pop_loop h l i p k = pop_loop h l i (nxt (h ! a)) (k + 1)"
      by (subst pop_loop.simps) (simp add: p)
    moreover have "chain h (ll_first l) ((us @ [a]) @ as)"
      "ll_length l = int (length ((us @ [a]) @ as))"
      using Cons.prems(1,3) by simp_all
    from Cons.IH [OF this(1) tl this(2), of "k + 1"]
    have "\<exists>r h' l'. pop_loop h l i (nxt (h ! a)) (k + 1) = Some (r, h', l') \<and> length_ok h' l'" .
    ultimately show ?thesis by simp
  next
    case True
    show ?thesis
    proof (cases "nxt (h ! a)")
      case None
      with True have "pop_loop h l i p k = Some (Inl IndexError, h, l)"
        by (subst pop_loop.simps) (simp add: p)
      with ok show ?thesis by blast
    next
      case (Some n)
      let ?h' = "h[a := (h ! a)\<lparr>nxt := nxt (h ! n)\<rparr>]"
      let ?l' = "l\<lparr>ll_length := ll_length l - 1\<rparr>"
      from Some True have res: "pop_loop h l i p k = Some (Inr (item (h ! n)), ?h', ?l')"
        by (subst pop_loop.simps) (simp add: p)
      from tl Some obtain post where as: "as = n # post"
        by (cases as) auto
      from Cons.prems(1) have "chain ?h' (ll_first l) (us @ a # post)"
        unfolding as by (rule chain_splice)
      then have "chain ?h' (ll_first ?l') (us @ a # post)"
        by simp
      then have "length_ok ?h' ?l'"
        by (rule length_okI) (simp add: Cons.prems(3) as)
      with res show ?thesis by blast
    qed
  qed
qed

lemma length_ok_pop:
  assumes "length_ok h l"
  shows "\<exists>r h' l'. pop h l i = Some (r, h', l') \<and> length_ok h' l'"
proof -
  from assms obtain as where ch: "chain h (ll_first l) as" and n: "ll_length l = int (length as)"
    unfolding length_ok_def by blast
  define j where "j = (if i < 0 then ll_length l + i else i)"
  show ?thesis
  proof (cases "j = 0")
    case False
    then have "pop h l i = pop_loop h l j (ll_first l) 0"
      by (simp add: pop_def Let_def j_def)
    moreover have "chain h (ll_first l) ([] @ as)" "ll_length l = int (length ([] @ as))"
      using ch n by simp_all
    from pop_loop_keeps [OF this(1) ch this(2), of j 0]
    have "\<exists>r h' l'. pop_loop h l j (ll_first l) 0 = Some (r, h', l') \<and> length_ok h' l'" .
    ultimately show ?thesis by simp
  next
    case True
    show ?thesis
    proof (cases "ll_first l")
      case None
      with True have "pop h l i = Some (Inl IndexError, h, l)"
        by (simp add: pop_def Let_def j_def)
      with assms show ?thesis by blast
    next
      case (Some f)
      let ?l' = "l\<lparr>ll_first := nxt (h ! f), ll_length := ll_length l - 1\<rparr>"
      from Some True have res: "pop h l i = Some (Inr (item (h ! f)), h, ?l')"
        by (simp add: pop_def Let_def j_def)
      from ch Some obtain bs where as: "as = f # bs" and tl: "chain h (nxt (h ! f)) bs"
        by (cases as) auto
      from tl have "chain h (ll_first ?l') bs" by simp
      then have "length_ok h ?l'"
        by (rule length_okI) (simp add: n as)
      with res show ?thesis by blast
    qed
  qed
qed

section \<open>The cached length after copy, extend and the operator form\<close>

lemma length_ok_chain:
  "chain h (ll_first l) as \<Longrightarrow> length_ok h l \<longleftrightarrow> ll_length l = int (length as)"
  unfolding length_ok_def using chain_functional by blast

text \<open>
  C1 at a concrete input. The list built from \<open>[1, 2, 3]\<close> has three nodes and length 3.
  Its copy has the same three nodes and length 0. After \<open>extend\<close> with the list built
  from \<open>[4]\<close> the list has four nodes and still length 3, and the list returned by
  \<open>__add__\<close> has four nodes and length 1. In all three the cached length is not the
  number of nodes.
\<close>

theorem length_not_kept_by_copy_extend_add:
  "init [] (Some [1, 2, 3::int]) None
     = Some ([\<lparr>item = 1, nxt = Some 1\<rparr>, \<lparr>item = 2, nxt = Some 2\<rparr>, \<lparr>item = 3, nxt = None\<rparr>],
             \<lparr>ll_first = Some 0, ll_length = 3\<rparr>)
   \<and> copy [\<lparr>item = 1::int, nxt = Some 1\<rparr>, \<lparr>item = 2, nxt = Some 2\<rparr>, \<lparr>item = 3, nxt = None\<rparr>]
       \<lparr>ll_first = Some 0, ll_length = 3\<rparr>
     = Some ([\<lparr>item = 1, nxt = Some 1\<rparr>, \<lparr>item = 2, nxt = Some 2\<rparr>, \<lparr>item = 3, nxt = None\<rparr>],
             \<lparr>ll_first = Some 0, ll_length = 0\<rparr>)
   \<and> len \<lparr>ll_first = Some 0, ll_length = 0\<rparr> = 0
   \<and> to_list [\<lparr>item = 1::int, nxt = Some 1\<rparr>, \<lparr>item = 2, nxt = Some 2\<rparr>, \<lparr>item = 3, nxt = None\<rparr>]
       \<lparr>ll_first = Some 0, ll_length = 0\<rparr> = Some [1, 2, 3]
   \<and> \<not> length_ok [\<lparr>item = 1::int, nxt = Some 1\<rparr>, \<lparr>item = 2, nxt = Some 2\<rparr>, \<lparr>item = 3, nxt = None\<rparr>]
         \<lparr>ll_first = Some 0, ll_length = 0\<rparr>
   \<and> init [\<lparr>item = 1::int, nxt = Some 1\<rparr>, \<lparr>item = 2, nxt = Some 2\<rparr>, \<lparr>item = 3, nxt = None\<rparr>]
       (Some [4]) None
     = Some ([\<lparr>item = 1, nxt = Some 1\<rparr>, \<lparr>item = 2, nxt = Some 2\<rparr>, \<lparr>item = 3, nxt = None\<rparr>,
              \<lparr>item = 4, nxt = None\<rparr>],
             \<lparr>ll_first = Some 3, ll_length = 1\<rparr>)
   \<and> extend_ll [\<lparr>item = 1::int, nxt = Some 1\<rparr>, \<lparr>item = 2, nxt = Some 2\<rparr>, \<lparr>item = 3, nxt = None\<rparr>,
                \<lparr>item = 4, nxt = None\<rparr>]
       \<lparr>ll_first = Some 0, ll_length = 3\<rparr> \<lparr>ll_first = Some 3, ll_length = 1\<rparr>
     = Some ([\<lparr>item = 1, nxt = Some 1\<rparr>, \<lparr>item = 2, nxt = Some 2\<rparr>, \<lparr>item = 3, nxt = Some 4\<rparr>,
              \<lparr>item = 4, nxt = None\<rparr>, \<lparr>item = 4, nxt = None\<rparr>],
             \<lparr>ll_first = Some 0, ll_length = 3\<rparr>)
   \<and> add [\<lparr>item = 1::int, nxt = Some 1\<rparr>, \<lparr>item = 2, nxt = Some 2\<rparr>, \<lparr>item = 3, nxt = None\<rparr>,
          \<lparr>item = 4, nxt = None\<rparr>]
       \<lparr>ll_first = Some 0, ll_length = 3\<rparr> \<lparr>ll_first = Some 3, ll_length = 1\<rparr>
     = Some ([\<lparr>item = 1, nxt = Some 1\<rparr>, \<lparr>item = 2, nxt = Some 2\<rparr>, \<lparr>item = 3, nxt = Some 4\<rparr>,
              \<lparr>item = 4, nxt = None\<rparr>, \<lparr>item = 4, nxt = None\<rparr>],
             \<lparr>ll_first = Some 0, ll_length = 1\<rparr>)
   \<and> to_list [\<lparr>item = 1::int, nxt = Some 1\<rparr>, \<lparr>item = 2, nxt = Some 2\<rparr>, \<lparr>item = 3, nxt = Some 4\<rparr>,
              \<lparr>item = 4, nxt = None\<rparr>, \<lparr>item = 4, nxt = None\<rparr>]
       \<lparr>ll_first = Some 0, ll_length = 3\<rparr> = Some [1, 2, 3, 4]
   \<and> \<not> length_ok [\<lparr>item = 1::int, nxt = Some 1\<rparr>, \<lparr>item = 2, nxt = Some 2\<rparr>, \<lparr>item = 3, nxt = Some 4\<rparr>,
                  \<lparr>item = 4, nxt = None\<rparr>, \<lparr>item = 4, nxt = None\<rparr>]
         \<lparr>ll_first = Some 0, ll_length = 3\<rparr>
   \<and> \<not> length_ok [\<lparr>item = 1::int, nxt = Some 1\<rparr>, \<lparr>item = 2, nxt = Some 2\<rparr>, \<lparr>item = 3, nxt = Some 4\<rparr>,
                  \<lparr>item = 4, nxt = None\<rparr>, \<lparr>item = 4, nxt = None\<rparr>]
         \<lparr>ll_first = Some 0, ll_length = 1\<rparr>"
proof -
  let ?h3 = "[\<lparr>item = 1::int, nxt = Some 1\<rparr>, \<lparr>item = 2, nxt = Some 2\<rparr>, \<lparr>item = 3, nxt = None\<rparr>]"
  let ?h5 = "[\<lparr>item = 1::int, nxt = Some 1\<rparr>, \<lparr>item = 2, nxt = Some 2\<rparr>, \<lparr>item = 3, nxt = Some 4\<rparr>,
              \<lparr>item = 4, nxt = None\<rparr>, \<lparr>item = 4, nxt = None\<rparr>]"
  have c3: "chain ?h3 (ll_first \<lparr>ll_first = Some 0, ll_length = 0\<rparr>) [0, 1, 2]"
    by simp
  have n1: "\<not> length_ok ?h3 \<lparr>ll_first = Some 0, ll_length = 0\<rparr>"
    unfolding length_ok_chain [OF c3] by simp
  have c5: "chain ?h5 (ll_first \<lparr>ll_first = Some 0, ll_length = 3\<rparr>) [0, 1, 2, 4]"
    by simp
  have n2: "\<not> length_ok ?h5 \<lparr>ll_first = Some 0, ll_length = 3\<rparr>"
    unfolding length_ok_chain [OF c5] by simp
  have c5': "chain ?h5 (ll_first \<lparr>ll_first = Some 0, ll_length = 1\<rparr>) [0, 1, 2, 4]"
    by simp
  have n3: "\<not> length_ok ?h5 \<lparr>ll_first = Some 0, ll_length = 1\<rparr>"
    unfolding length_ok_chain [OF c5'] by simp
  show ?thesis
    using n1 n2 n3
    by (simp add: extend_ll_def add_def copy_def init_def iter_def extend_loop.simps next_it_def
        append_ll_def Let_def append_loop.simps len_def to_list_def to_list_loop.simps)
qed

end
